theory Spec2Isabelle
  imports Complex_Main "HOL-Library.Sublist" "HOL-Library.AList"
begin

section \<open>Numbers, errors and tables\<close>

text \<open>
  A Python float is either a number or the undefined marker NaN.  Arithmetic is the
  arithmetic of the reals whenever both operands are numbers (rounding is not part of
  this model) and NaN as soon as one operand is NaN; every comparison with NaN is false,
  as in numpy and pandas.
\<close>

datatype number = NaN | Val real

datatype py_error = ZeroDivisionError | ValueError | KeyError | IndexError | LibraryError

fun isnan :: "number \<Rightarrow> bool" where
  "isnan NaN = True"
| "isnan (Val v) = False"

definition notna :: "number \<Rightarrow> bool" where
  "notna x = (\<not> isnan x)"

fun num_add :: "number \<Rightarrow> number \<Rightarrow> number" where
  "num_add (Val a) (Val b) = Val (a + b)"
| "num_add _ _ = NaN"

fun num_abs :: "number \<Rightarrow> number" where
  "num_abs (Val a) = Val \<bar>a\<bar>"
| "num_abs NaN = NaN"

fun num_lt :: "number \<Rightarrow> real \<Rightarrow> bool" where
  "num_lt (Val a) b = (a < b)"
| "num_lt NaN b = False"

fun num_gt :: "number \<Rightarrow> real \<Rightarrow> bool" where
  "num_gt (Val a) b = (a > b)"
| "num_gt NaN b = False"

fun num_ge :: "number \<Rightarrow> real \<Rightarrow> bool" where
  "num_ge (Val a) b = (a \<ge> b)"
| "num_ge NaN b = False"

text \<open>
  A pandas DataFrame: the column labels in order, and the rows, each row giving the cell
  of every column (a missing cell is NaN).
\<close>

record dataframe =
  columns :: "string list"
  rows :: "(string \<Rightarrow> number) list"

subsection \<open>Configuration (config/analysis\_config.py)\<close>

definition IGNORE_COLUMNS :: "string list" where
  "IGNORE_COLUMNS = [''date'', ''townvill'',
     [CHR 0xE7, CHR 0xB8, CHR 0xA3, CHR 0xE5, CHR 0xB8, CHR 0x82]]"

definition TARGETS :: "string list" where
  "TARGETS = [''pos'', ''egg'']"

definition LAG_RANGE :: "nat list" where
  "LAG_RANGE = [1..<13]"

definition LAG_VARIABLES :: "string list" where
  "LAG_VARIABLES = [''H_temp'', ''M_temp'', ''L_temp'', ''R'', ''NDVImean'', ''NDVImedian'', ''NDVIsum'']"

definition CORRELATION_METHOD :: string where
  "CORRELATION_METHOD = ''spearman''"

definition BONFERRONI_ALPHA :: real where
  "BONFERRONI_ALPHA = 0.05"

definition PCA_VARIANCE_TARGET :: real where
  "PCA_VARIANCE_TARGET = 0.90"

definition PCA_SCREE_COMPONENTS :: nat where
  "PCA_SCREE_COMPONENTS = 50"

definition CLUSTERING_K_MIN :: nat where
  "CLUSTERING_K_MIN = 2"

definition CLUSTERING_K_MAX :: nat where
  "CLUSTERING_K_MAX = 10"

definition CLUSTERING_K_RANGE :: "nat list" where
  "CLUSTERING_K_RANGE = [CLUSTERING_K_MIN..<CLUSTERING_K_MAX + 1]"

definition UNIVERSAL_PREDICTOR_RHO_THRESHOLD :: real where
  "UNIVERSAL_PREDICTOR_RHO_THRESHOLD = 0.3"

definition UNIVERSAL_PREDICTOR_P_THRESHOLD :: real where
  "UNIVERSAL_PREDICTOR_P_THRESHOLD = 0.001"

definition CITY_ORDER :: "string list" where
  "CITY_ORDER = [''taipei'', ''kaohsiung'', ''pingtung'', ''tainan'']"

text \<open>
  The English name of a city in \<open>CITIES\<close>; it is looked up for the keys of
  \<open>CITY_ORDER\<close> only.
\<close>

definition CITIES_name_en :: "string \<Rightarrow> string" where
  "CITIES_name_en key =
     (if key = ''taipei'' then ''Taipei''
      else if key = ''kaohsiung'' then ''Kaohsiung''
      else if key = ''pingtung'' then ''Pingtung''
      else ''Tainan'')"

section \<open>Correlation Engine (core/base\_analyzer.py, core/data\_loader.py)\<close>

text \<open>
  The rank correlation itself is scipy's.  It is a parameter of the model: given the two
  samples it returns the coefficient and the p-value, or raises.
\<close>

type_synonym corr_fun = "number list \<Rightarrow> number list \<Rightarrow> py_error + (number \<times> number)"

record stats_lib =
  spearmanr :: corr_fun
  pearsonr :: corr_fun

text \<open>\<open>DataLoader.get_feature_columns\<close> with \<open>include_targets=False\<close>.\<close>

definition get_feature_columns :: "dataframe \<Rightarrow> string list" where
  "get_feature_columns df =
     (let exclude_cols = set IGNORE_COLUMNS \<union> set TARGETS \<union> {''city'', ''city_zh'', ''city_abbr''}
      in filter (\<lambda>col. col \<notin> exclude_cols) (columns df))"

text \<open>\<open>df[cols].notna().all(axis=1)\<close> and \<open>df.loc[mask, col]\<close>.\<close>

definition valid_mask :: "dataframe \<Rightarrow> string list \<Rightarrow> bool list" where
  "valid_mask df cols = map (\<lambda>r. \<forall>c \<in> set cols. notna (r c)) (rows df)"

definition loc_mask :: "dataframe \<Rightarrow> bool list \<Rightarrow> string \<Rightarrow> number list" where
  "loc_mask df vmask col = map (\<lambda>(r, m). r col) (filter snd (zip (rows df) vmask))"

text \<open>The body of the loop of \<open>calculate_correlation\<close> for one feature.\<close>

definition correlate_feature ::
  "stats_lib \<Rightarrow> dataframe \<Rightarrow> string \<Rightarrow> string \<Rightarrow> string \<Rightarrow> py_error + (number \<times> number)" where
  "correlate_feature lib df feature target method =
     (if feature \<notin> set (columns df) \<or> target \<notin> set (columns df) then Inl KeyError
      else
        let vmask = valid_mask df [feature, target];
            x = loc_mask df vmask feature;
            y = loc_mask df vmask target
        in if length x > 0 then
             (if method = ''spearman'' then spearmanr lib x y
              else if method = ''pearson'' then pearsonr lib x y
              else Inl ValueError)
           else Inr (NaN, NaN))"

text \<open>
  The two dictionaries \<open>correlations\<close> and \<open>p_values\<close> are association lists in
  insertion order; assigning to a key that is already present replaces its value in place.
\<close>

fun calculate_correlation_loop ::
  "stats_lib \<Rightarrow> dataframe \<Rightarrow> string list \<Rightarrow> string \<Rightarrow> string \<Rightarrow>
   (string \<times> number) list \<Rightarrow> (string \<times> number) list \<Rightarrow>
   py_error + ((string \<times> number) list \<times> (string \<times> number) list)" where
  "calculate_correlation_loop lib df [] target method correlations p_values =
     Inr (correlations, p_values)"
| "calculate_correlation_loop lib df (feature # features) target method correlations p_values =
     (case correlate_feature lib df feature target method of
        Inl e \<Rightarrow> Inl e
      | Inr (corr, pval) \<Rightarrow>
          calculate_correlation_loop lib df features target method
            (AList.update feature corr correlations) (AList.update feature pval p_values))"

definition calculate_correlation ::
  "stats_lib \<Rightarrow> dataframe \<Rightarrow> string list \<Rightarrow> string \<Rightarrow> string \<Rightarrow>
   py_error + ((string \<times> number) list \<times> (string \<times> number) list)" where
  "calculate_correlation lib df features target method =
     calculate_correlation_loop lib df features target method [] []"

text \<open>
  \<open>bonferroni_correction\<close>: Python's division of a float by the integer 0 raises
  ZeroDivisionError.
\<close>

definition bonferroni_correction :: "number list \<Rightarrow> real \<Rightarrow> py_error + (real \<times> bool list)" where
  "bonferroni_correction p_values alpha =
     (let n_tests = length p_values
      in if n_tests = 0 then Inl ZeroDivisionError
         else
           let corrected_alpha = alpha / real n_tests;
               significant = map (\<lambda>p. num_lt p corrected_alpha) p_values
           in Inr (corrected_alpha, significant))"

text \<open>
  \<open>StatisticalAnalyzer.analyze\<close> up to the stored significance results of each target:
  the correlations, the p-values, the corrected threshold, the flags and their count.  A
  target that is not a column of the table is skipped with a warning.
\<close>

record significance_results =
  correlations :: "(string \<times> number) list"
  p_values :: "(string \<times> number) list"
  corrected_alpha :: real
  significant :: "bool list"
  n_significant :: nat

definition analyze_target ::
  "stats_lib \<Rightarrow> dataframe \<Rightarrow> string list \<Rightarrow> string \<Rightarrow> py_error + significance_results" where
  "analyze_target lib df features target =
     (case calculate_correlation lib df features target CORRELATION_METHOD of
        Inl e \<Rightarrow> Inl e
      | Inr (cs, ps) \<Rightarrow>
          (case bonferroni_correction (map snd ps) BONFERRONI_ALPHA of
             Inl e \<Rightarrow> Inl e
           | Inr (ca, sig) \<Rightarrow>
               Inr \<lparr>correlations = cs, p_values = ps, corrected_alpha = ca,
                    significant = sig, n_significant = length (filter id sig)\<rparr>))"

fun analyze_loop ::
  "stats_lib \<Rightarrow> dataframe \<Rightarrow> string list \<Rightarrow> string list \<Rightarrow>
   (string \<times> significance_results) list \<Rightarrow> py_error + (string \<times> significance_results) list" where
  "analyze_loop lib df features [] results = Inr results"
| "analyze_loop lib df features (target # targets) results =
     (if target \<notin> set (columns df) then analyze_loop lib df features targets results
      else
        (case analyze_target lib df features target of
           Inl e \<Rightarrow> Inl e
         | Inr r \<Rightarrow> analyze_loop lib df features targets (AList.update target r results)))"

definition analyze :: "stats_lib \<Rightarrow> dataframe \<Rightarrow> py_error + (string \<times> significance_results) list" where
  "analyze lib df =
     (let features = get_feature_columns df
      in analyze_loop lib df features TARGETS [])"

section \<open>Dimensionality Reducer (analyzers/pca\_clustering\_analyzer.py)\<close>

text \<open>\<open>np.cumsum\<close>: running sums, left to right.\<close>

fun cumsum_from :: "number \<Rightarrow> number list \<Rightarrow> number list" where
  "cumsum_from acc [] = []"
| "cumsum_from acc (x # xs) = num_add acc x # cumsum_from (num_add acc x) xs"

definition cumsum :: "number list \<Rightarrow> number list" where
  "cumsum xs = cumsum_from (Val 0) xs"

text \<open>
  \<open>np.argmax\<close> of a boolean array: the index of the first True, 0 when no entry is True,
  and ValueError on an empty array.
\<close>

fun first_index :: "bool list \<Rightarrow> nat option" where
  "first_index [] = None"
| "first_index (b # bs) = (if b then Some 0 else map_option Suc (first_index bs))"

definition np_argmax :: "bool list \<Rightarrow> py_error + nat" where
  "np_argmax bs =
     (if bs = [] then Inl ValueError
      else Inr (case first_index bs of Some i \<Rightarrow> i | None \<Rightarrow> 0))"

text \<open>
  A fitted scikit-learn PCA: its explained-variance ratios, in descending order of
  variance, and the matrix \<open>fit_transform\<close> returns, row by row.  The decomposition is a
  parameter of the model: \<open>PCA n X\<close> stands for \<open>PCA(n_components=n,
  random_state=RANDOM_SEED)\<close> fitted on \<open>X\<close>, with \<open>n = None\<close> for the full decomposition.
\<close>

record pca_fit =
  explained_variance_ratio :: "number list"
  transformed :: "number list list"

type_synonym 'x pca_fun = "nat option \<Rightarrow> 'x \<Rightarrow> py_error + pca_fit"

record pca_results =
  n_components :: nat
  pca_explained_variance_ratio :: "number list"
  cumulative_variance :: "number list"
  total_variance_explained :: number
  X_pca :: "number list list"
  all_explained_variance :: "number list"

text \<open>The line \<open>np.argmax(cumvar >= target) + 1\<close>.\<close>

definition n_components_target :: "real \<Rightarrow> number list \<Rightarrow> py_error + nat" where
  "n_components_target target cumvar =
     (case np_argmax (map (\<lambda>c. num_ge c target) cumvar) of
        Inl e \<Rightarrow> Inl e
      | Inr idx \<Rightarrow> Inr (idx + 1))"

text \<open>\<open>_perform_pca\<close>, with the variance target as an argument.\<close>

definition perform_pca_with :: "'x pca_fun \<Rightarrow> real \<Rightarrow> 'x \<Rightarrow> py_error + pca_results" where
  "perform_pca_with PCA target X_scaled =
     (case PCA None X_scaled of
        Inl e \<Rightarrow> Inl e
      | Inr pca_full \<Rightarrow>
          let cumvar = cumsum (explained_variance_ratio pca_full)
          in (case n_components_target target cumvar of
                Inl e \<Rightarrow> Inl e
              | Inr n \<Rightarrow>
                  (case PCA (Some n) X_scaled of
                     Inl e \<Rightarrow> Inl e
                   | Inr pca \<Rightarrow>
                       Inr \<lparr>n_components = n,
                            pca_explained_variance_ratio = explained_variance_ratio pca,
                            cumulative_variance = cumsum (explained_variance_ratio pca),
                            total_variance_explained = cumvar ! (n - 1),
                            X_pca = transformed pca,
                            all_explained_variance =
                              take PCA_SCREE_COMPONENTS (explained_variance_ratio pca_full)\<rparr>)))"

definition perform_pca :: "'x pca_fun \<Rightarrow> 'x \<Rightarrow> py_error + pca_results" where
  "perform_pca PCA X_scaled = perform_pca_with PCA PCA_VARIANCE_TARGET X_scaled"

text \<open>
  The cumulative explained-variance ratio of the first \<open>C\<close> components, and what it means
  that some prefix of the components reaches a target.
\<close>

definition cum_ratio :: "number list \<Rightarrow> nat \<Rightarrow> number" where
  "cum_ratio ratios C = foldl num_add (Val 0) (take C ratios)"

definition reaches :: "number list \<Rightarrow> real \<Rightarrow> bool" where
  "reaches ratios target = (\<exists>C \<in> {1..length ratios}. num_ge (cum_ratio ratios C) target)"

section \<open>Cluster Selector (analyzers/pca\_clustering\_analyzer.py)\<close>

text \<open>
  k-means and the three validation indices are scikit-learn's and are parameters of the
  model; each returns its value or raises.  The labels are kept abstract.
\<close>

record ('x, 'l) cluster_lib =
  KMeans_fit_predict :: "nat \<Rightarrow> 'x \<Rightarrow> py_error + ('l \<times> number)"
  silhouette_score :: "'x \<Rightarrow> 'l \<Rightarrow> py_error + number"
  calinski_harabasz_score :: "'x \<Rightarrow> 'l \<Rightarrow> py_error + number"
  davies_bouldin_score :: "'x \<Rightarrow> 'l \<Rightarrow> py_error + number"

record 'l metrics_row =
  k :: nat
  silhouette :: number
  calinski_harabasz :: number
  davies_bouldin :: number
  labels :: 'l
  inertia :: number

text \<open>The body of the loop over \<open>CLUSTERING_K_RANGE\<close> for one candidate.\<close>

definition cluster_metrics :: "('x, 'l) cluster_lib \<Rightarrow> 'x \<Rightarrow> nat \<Rightarrow> py_error + 'l metrics_row" where
  "cluster_metrics lib X kk =
     (case KMeans_fit_predict lib kk X of
        Inl e \<Rightarrow> Inl e
      | Inr (lbls, inert) \<Rightarrow>
          (case silhouette_score lib X lbls of
             Inl e \<Rightarrow> Inl e
           | Inr sil \<Rightarrow>
               (case calinski_harabasz_score lib X lbls of
                  Inl e \<Rightarrow> Inl e
                | Inr cal \<Rightarrow>
                    (case davies_bouldin_score lib X lbls of
                       Inl e \<Rightarrow> Inl e
                     | Inr dav \<Rightarrow>
                         Inr \<lparr>k = kk, silhouette = sil, calinski_harabasz = cal,
                              davies_bouldin = dav, labels = lbls, inertia = inert\<rparr>))))"

fun metrics_loop :: "('x, 'l) cluster_lib \<Rightarrow> 'x \<Rightarrow> nat list \<Rightarrow> py_error + 'l metrics_row list" where
  "metrics_loop lib X [] = Inr []"
| "metrics_loop lib X (kk # ks) =
     (case cluster_metrics lib X kk of
        Inl e \<Rightarrow> Inl e
      | Inr row \<Rightarrow>
          (case metrics_loop lib X ks of
             Inl e \<Rightarrow> Inl e
           | Inr rest \<Rightarrow> Inr (row # rest)))"

text \<open>
  \<open>Series.idxmax\<close> and \<open>np.nanargmax\<close>: the position of the first occurrence of the
  largest value, NaN entries skipped; both raise when there is no value to choose from.
\<close>

fun first_max_from :: "nat \<Rightarrow> (nat \<times> real) option \<Rightarrow> number list \<Rightarrow> (nat \<times> real) option" where
  "first_max_from i best [] = best"
| "first_max_from i best (NaN # xs) = first_max_from (Suc i) best xs"
| "first_max_from i best (Val v # xs) =
     first_max_from (Suc i)
       (case best of
          None \<Rightarrow> Some (i, v)
        | Some (j, b) \<Rightarrow> if v > b then Some (i, v) else Some (j, b)) xs"

definition idxmax :: "number list \<Rightarrow> py_error + nat" where
  "idxmax xs = (case first_max_from 0 None xs of None \<Rightarrow> Inl ValueError | Some (i, v) \<Rightarrow> Inr i)"

record 'l clustering_results =
  clustering_metrics :: "(nat \<times> number \<times> number \<times> number \<times> number) list"
  optimal_k :: nat
  optimal_labels :: 'l
  optimal_silhouette :: number
  optimal_calinski :: number
  optimal_davies :: number

definition optimize_clustering :: "('x, 'l) cluster_lib \<Rightarrow> 'x \<Rightarrow> py_error + 'l clustering_results" where
  "optimize_clustering lib X =
     (case metrics_loop lib X CLUSTERING_K_RANGE of
        Inl e \<Rightarrow> Inl e
      | Inr metrics_results \<Rightarrow>
          (case idxmax (map silhouette metrics_results) of
             Inl e \<Rightarrow> Inl e
           | Inr optimal_idx \<Rightarrow>
               let best = metrics_results ! optimal_idx
               in Inr \<lparr>clustering_metrics =
                         map (\<lambda>r. (k r, silhouette r, calinski_harabasz r, davies_bouldin r, inertia r))
                           metrics_results,
                       optimal_k = k best,
                       optimal_labels = labels best,
                       optimal_silhouette = silhouette best,
                       optimal_calinski = calinski_harabasz best,
                       optimal_davies = davies_bouldin best\<rparr>))"

section \<open>Lag/Rolling Scanner (analyzers/lag\_rolling\_analyzer.py, core/data\_loader.py)\<close>

text \<open>\<open>str(week)\<close>: the decimal digits of a natural number.\<close>

definition digit_char :: "nat \<Rightarrow> char" where
  "digit_char d = ''0123456789'' ! d"

fun str_nat :: "nat \<Rightarrow> string" where
  "str_nat n = (if n < 10 then [digit_char n] else str_nat (n div 10) @ [digit_char (n mod 10)])"

declare str_nat.simps [simp del]

text \<open>The two loops of \<open>DataLoader.get_lag_features\<close>, for one week.\<close>

definition simple_lag_column :: "string list \<Rightarrow> string \<Rightarrow> nat \<Rightarrow> string option" where
  "simple_lag_column cols var week =
     (let col_pattern1 = var @ ''_lag_'' @ str_nat week;
          col_pattern2 = var @ ''_lag'' @ str_nat week
      in if col_pattern1 \<in> set cols then Some col_pattern1
         else if col_pattern2 \<in> set cols then Some col_pattern2
         else None)"

definition rolling_lag_column :: "string list \<Rightarrow> string \<Rightarrow> nat \<Rightarrow> string option" where
  "rolling_lag_column cols var week =
     (let col_pattern1 = var @ ''_lag_rolling'' @ str_nat week;
          col_pattern2 = var @ ''_lag_rollingmean'' @ str_nat week;
          col_pattern3 = var @ ''_lag_rollingmedian'' @ str_nat week;
          col_pattern4 = var @ ''_lag_rollingsum'' @ str_nat week
      in if col_pattern1 \<in> set cols then Some col_pattern1
         else if col_pattern2 \<in> set cols then Some col_pattern2
         else if col_pattern3 \<in> set cols then Some col_pattern3
         else if col_pattern4 \<in> set cols then Some col_pattern4
         else None)"

definition get_lag_features :: "dataframe \<Rightarrow> string \<Rightarrow> string \<Rightarrow> string list" where
  "get_lag_features df var lag_type =
     (if lag_type = ''simple'' then
        List.map_filter (simple_lag_column (columns df) var) LAG_RANGE
      else if lag_type = ''rolling'' then
        List.map_filter (rolling_lag_column (columns df) var) LAG_RANGE
      else [])"

text \<open>
  \<open>_analyze_lag_features\<close>.  The feature of a week is the first of the variable's lag
  columns whose name contains the decimal digits of the week.
\<close>

definition week_feature :: "string list \<Rightarrow> nat \<Rightarrow> string option" where
  "week_feature lag_features week =
     (case filter (\<lambda>f. sublist (str_nat week) f) lag_features of
        [] \<Rightarrow> None
      | feature # _ \<Rightarrow> Some feature)"

definition feature_correlation ::
  "stats_lib \<Rightarrow> dataframe \<Rightarrow> string \<Rightarrow> string \<Rightarrow> py_error + (number \<times> number)" where
  "feature_correlation lib df feature target =
     (if feature \<notin> set (columns df) \<or> target \<notin> set (columns df) then Inl KeyError
      else
        let vmask = valid_mask df [feature, target]
        in if length (filter id vmask) > 0 then
             spearmanr lib (loc_mask df vmask feature) (loc_mask df vmask target)
           else Inr (NaN, NaN))"

definition week_correlation ::
  "stats_lib \<Rightarrow> dataframe \<Rightarrow> string \<Rightarrow> string list \<Rightarrow> nat \<Rightarrow> py_error + (number \<times> number)" where
  "week_correlation lib df target lag_features week =
     (case week_feature lag_features week of
        Some feature \<Rightarrow> feature_correlation lib df feature target
      | None \<Rightarrow> Inr (NaN, NaN))"

text \<open>
  One row of the correlation table: the variable and, in insertion order, the cells
  \<open>lag_w\<close> and \<open>lag_w_p\<close> of every week.
\<close>

record lag_row =
  variable :: string
  cells :: "(string \<times> number) list"

fun lag_row_loop ::
  "stats_lib \<Rightarrow> dataframe \<Rightarrow> string \<Rightarrow> string list \<Rightarrow> nat list \<Rightarrow> (string \<times> number) list \<Rightarrow>
   py_error + (string \<times> number) list" where
  "lag_row_loop lib df target lag_features [] row = Inr row"
| "lag_row_loop lib df target lag_features (week # weeks) row =
     (case week_correlation lib df target lag_features week of
        Inl e \<Rightarrow> Inl e
      | Inr (corr, pval) \<Rightarrow>
          lag_row_loop lib df target lag_features weeks
            (AList.update (''lag_'' @ str_nat week @ ''_p'') pval
               (AList.update (''lag_'' @ str_nat week) corr row)))"

fun analyze_lag_loop ::
  "stats_lib \<Rightarrow> dataframe \<Rightarrow> string \<Rightarrow> string \<Rightarrow> string list \<Rightarrow> py_error + lag_row list" where
  "analyze_lag_loop lib df target lag_type [] = Inr []"
| "analyze_lag_loop lib df target lag_type (var # vars) =
     (let lag_features = get_lag_features df var lag_type
      in if length lag_features = 0 then analyze_lag_loop lib df target lag_type vars
         else
           (case lag_row_loop lib df target lag_features LAG_RANGE [] of
              Inl e \<Rightarrow> Inl e
            | Inr row \<Rightarrow>
                (case analyze_lag_loop lib df target lag_type vars of
                   Inl e \<Rightarrow> Inl e
                 | Inr rest \<Rightarrow> Inr (\<lparr>variable = var, cells = row\<rparr> # rest))))"

definition analyze_lag_features ::
  "stats_lib \<Rightarrow> dataframe \<Rightarrow> string \<Rightarrow> string \<Rightarrow> py_error + lag_row list" where
  "analyze_lag_features lib df target lag_type =
     analyze_lag_loop lib df target lag_type LAG_VARIABLES"

text \<open>\<open>_find_optimal_lags\<close>.\<close>

definition nanargmax :: "number list \<Rightarrow> py_error + nat" where
  "nanargmax xs = (case first_max_from 0 None xs of None \<Rightarrow> Inl ValueError | Some (i, v) \<Rightarrow> Inr i)"

definition lag_cols :: "string list" where
  "lag_cols = map (\<lambda>week. ''lag_'' @ str_nat week) LAG_RANGE"

text \<open>\<open>row[lag_cols]\<close>: the cells of the listed columns, KeyError when one is missing.\<close>

fun row_values :: "(string \<times> number) list \<Rightarrow> string list \<Rightarrow> py_error + number list" where
  "row_values row [] = Inr []"
| "row_values row (c # cs) =
     (case map_of row c of
        None \<Rightarrow> Inl KeyError
      | Some v \<Rightarrow> (case row_values row cs of Inl e \<Rightarrow> Inl e | Inr vs \<Rightarrow> Inr (v # vs)))"

text \<open>
  The block that picks the optimal week of one family from the correlations of the weeks;
  the function runs it once on the simple lags and once on the rolling windows.
\<close>

definition optimal_lag :: "number list \<Rightarrow> py_error + (number \<times> number)" where
  "optimal_lag lag_corrs =
     (let abs_corrs = map num_abs lag_corrs
      in if \<not> list_all isnan abs_corrs then
           (case nanargmax abs_corrs of
              Inl e \<Rightarrow> Inl e
            | Inr optimal_idx \<Rightarrow>
                if optimal_idx < length LAG_RANGE
                then Inr (Val (real (LAG_RANGE ! optimal_idx)), lag_corrs ! optimal_idx)
                else Inl IndexError)
         else Inr (NaN, NaN))"

record optimal_row =
  opt_variable :: string
  optimal_lag_simple_weeks :: number
  optimal_lag_simple_correlation :: number
  optimal_lag_rolling_weeks :: number
  optimal_lag_rolling_correlation :: number

text \<open>
  The rolling optimum of a variable, from the first row of the rolling table with that
  variable.  A table without rows is a DataFrame without columns, and selecting its
  \<open>variable\<close> column raises KeyError.
\<close>

definition optimal_rolling :: "lag_row list \<Rightarrow> string \<Rightarrow> py_error + (number \<times> number)" where
  "optimal_rolling lag_rolling_df var =
     (if lag_rolling_df = [] then Inl KeyError
      else
        (case filter (\<lambda>r. variable r = var) lag_rolling_df of
           [] \<Rightarrow> Inr (NaN, NaN)
         | rolling_row # _ \<Rightarrow>
             (case row_values (cells rolling_row) lag_cols of
                Inl e \<Rightarrow> Inl e
              | Inr rolling_corrs \<Rightarrow> optimal_lag rolling_corrs)))"

fun find_optimal_lags :: "lag_row list \<Rightarrow> lag_row list \<Rightarrow> py_error + optimal_row list" where
  "find_optimal_lags [] lag_rolling_df = Inr []"
| "find_optimal_lags (row # lag_simple_df) lag_rolling_df =
     (case row_values (cells row) lag_cols of
        Inl e \<Rightarrow> Inl e
      | Inr lag_corrs \<Rightarrow>
          (case optimal_lag lag_corrs of
             Inl e \<Rightarrow> Inl e
           | Inr (optimal_week, optimal_corr) \<Rightarrow>
               (case optimal_rolling lag_rolling_df (variable row) of
                  Inl e \<Rightarrow> Inl e
                | Inr (optimal_rolling_week, optimal_rolling_corr) \<Rightarrow>
                    (case find_optimal_lags lag_simple_df lag_rolling_df of
                       Inl e \<Rightarrow> Inl e
                     | Inr rest \<Rightarrow>
                         Inr (\<lparr>opt_variable = variable row,
                               optimal_lag_simple_weeks = optimal_week,
                               optimal_lag_simple_correlation = optimal_corr,
                               optimal_lag_rolling_weeks = optimal_rolling_week,
                               optimal_lag_rolling_correlation = optimal_rolling_corr\<rparr> # rest)))))"

section \<open>Group Significance Tester (analyzers/pca\_clustering\_analyzer.py)\<close>

text \<open>
  The Kruskal-Wallis test is scipy's and Dunn's test is scikit-posthocs'; both are
  parameters of the model.  The pairwise matrix is kept abstract.
\<close>

record 'm rank_lib =
  kruskal :: "number list list \<Rightarrow> py_error + (number \<times> number)"
  posthoc_dunn :: "(number \<times> number) list \<Rightarrow> py_error + 'm"

text \<open>A value stored in the results dictionary: a float, a pairwise matrix, or None.\<close>

datatype 'm test_value = Number number | Matrix 'm | PyNone

text \<open>
  \<open>df[df['cluster'] == i][target].dropna()\<close> for every cluster, and
  \<open>df[['cluster', target]].dropna()\<close>.
\<close>

definition cluster_groups :: "dataframe \<Rightarrow> nat \<Rightarrow> string \<Rightarrow> number list list" where
  "cluster_groups df n_clusters target =
     map (\<lambda>i. filter notna (map (\<lambda>r. r target) (filter (\<lambda>r. r ''cluster'' = Val (real i)) (rows df))))
       [0..<n_clusters]"

definition dunn_input :: "dataframe \<Rightarrow> string \<Rightarrow> (number \<times> number) list" where
  "dunn_input df target =
     map (\<lambda>r. (r ''cluster'', r target))
       (filter (\<lambda>r. notna (r ''cluster'') \<and> notna (r target)) (rows df))"

fun cluster_outcome_loop ::
  "'m rank_lib \<Rightarrow> dataframe \<Rightarrow> nat \<Rightarrow> string list \<Rightarrow> (string \<times> 'm test_value) list \<Rightarrow>
   py_error + (string \<times> 'm test_value) list" where
  "cluster_outcome_loop lib df n_clusters [] results = Inr results"
| "cluster_outcome_loop lib df n_clusters (target # targets) results =
     (if target \<notin> set (columns df) then cluster_outcome_loop lib df n_clusters targets results
      else if ''cluster'' \<notin> set (columns df) then Inl KeyError
      else
        (case kruskal lib (cluster_groups df n_clusters target) of
           Inl e \<Rightarrow> Inl e
         | Inr (h_stat, p_value) \<Rightarrow>
             let results1 = AList.update (target @ ''_kruskal_p'') (Number p_value)
                              (AList.update (target @ ''_kruskal_h'') (Number h_stat) results)
             in if num_lt p_value 0.05 then
                  (case posthoc_dunn lib (dunn_input df target) of
                     Inl e \<Rightarrow> Inl e
                   | Inr dunn_result \<Rightarrow>
                       cluster_outcome_loop lib df n_clusters targets
                         (AList.update (target @ ''_dunn_pvalues'') (Matrix dunn_result) results1))
                else
                  cluster_outcome_loop lib df n_clusters targets
                    (AList.update (target @ ''_dunn_pvalues'') PyNone results1)))"

definition test_cluster_outcome_relationships ::
  "'m rank_lib \<Rightarrow> dataframe \<Rightarrow> nat \<Rightarrow> py_error + (string \<times> 'm test_value) list" where
  "test_cluster_outcome_relationships lib df_clustered n_clusters =
     cluster_outcome_loop lib df_clustered n_clusters TARGETS []"

section \<open>Cross-unit Comparator (analyzers/comparison\_analyzer.py)\<close>

text \<open>
  The statistical results of one city, as far as the comparator reads them: for every
  target the two series \<open>{target}_correlations\<close> and \<open>{target}_p_values\<close>, when stored.
  A city's entry of \<open>city_results\<close> holds them under the key \<open>statistical\<close>, when present.
\<close>

record stat_results =
  stat_correlations :: "string \<rightharpoonup> (string \<times> number) list"
  stat_p_values :: "string \<rightharpoonup> (string \<times> number) list"

record city_result =
  statistical :: "stat_results option"

text \<open>
  The features that pass \<open>(np.abs(corr) > RHO) & (pval < P)\<close>; the two series carry the
  same index, and a comparison with NaN is false.
\<close>

definition significant_features :: "(string \<times> number) list \<Rightarrow> (string \<times> number) list \<Rightarrow> string set" where
  "significant_features corr pval =
     set (map fst
       (filter (\<lambda>(f, c). num_gt (num_abs c) UNIVERSAL_PREDICTOR_RHO_THRESHOLD \<and>
                  (case map_of pval f of
                     Some p \<Rightarrow> num_lt p UNIVERSAL_PREDICTOR_P_THRESHOLD
                   | None \<Rightarrow> False)) corr))"

text \<open>
  The loop over \<open>city_order\<close> that fills \<open>city_significant\<close> for one target: first what
  one city contributes (nothing when the city, its statistical results or the target's
  correlations are absent), then the loop.
\<close>

definition city_entry ::
  "(string \<rightharpoonup> city_result) \<Rightarrow> string \<Rightarrow> string \<Rightarrow> py_error + (string \<times> string set) option" where
  "city_entry city_results target city_key =
     (case city_results city_key of
        None \<Rightarrow> Inr None
      | Some res \<Rightarrow>
          (case statistical res of
             None \<Rightarrow> Inr None
           | Some stat_res \<Rightarrow>
               (case stat_correlations stat_res target of
                  None \<Rightarrow> Inr None
                | Some corr \<Rightarrow>
                    (case stat_p_values stat_res target of
                       None \<Rightarrow> Inl KeyError
                     | Some pval \<Rightarrow>
                         Inr (Some (CITIES_name_en city_key, significant_features corr pval))))))"

fun collect_significant ::
  "(string \<rightharpoonup> city_result) \<Rightarrow> string \<Rightarrow> string list \<Rightarrow> (string \<times> string set) list \<Rightarrow>
   py_error + (string \<times> string set) list" where
  "collect_significant city_results target [] city_significant = Inr city_significant"
| "collect_significant city_results target (city_key # keys) city_significant =
     (case city_entry city_results target city_key of
        Inl e \<Rightarrow> Inl e
      | Inr None \<Rightarrow> collect_significant city_results target keys city_significant
      | Inr (Some (city_name, features)) \<Rightarrow>
          collect_significant city_results target keys
            (AList.update city_name features city_significant))"

text \<open>
  The universal and the city-specific predictors of one target, from \<open>city_significant\<close>.
  The universal predictors are a list in no particular order, and the city-specific
  predictors a dictionary from feature to the cities that have it; they are a set and a map
  here.
\<close>

definition cities_with_feature :: "(string \<times> string set) list \<Rightarrow> string \<Rightarrow> string list" where
  "cities_with_feature city_significant feature =
     map fst (filter (\<lambda>(city, features). feature \<in> features) city_significant)"

definition universal_of :: "(string \<times> string set) list \<Rightarrow> string set" where
  "universal_of city_significant = \<Inter> (set (map snd city_significant))"

definition city_specific_of :: "(string \<times> string set) list \<Rightarrow> string \<rightharpoonup> string list" where
  "city_specific_of city_significant =
     (let all_features = \<Union> (set (map snd city_significant))
      in (\<lambda>feature.
            if feature \<in> all_features \<and>
               1 \<le> length (cities_with_feature city_significant feature) \<and>
               length (cities_with_feature city_significant feature) \<le> 2
            then Some (cities_with_feature city_significant feature)
            else None))"

record predictors =
  universal_predictors :: "string \<rightharpoonup> string set"
  city_specific_predictors :: "string \<rightharpoonup> (string \<rightharpoonup> string list)"

fun identify_predictors_loop ::
  "(string \<rightharpoonup> city_result) \<Rightarrow> string list \<Rightarrow> predictors \<Rightarrow> py_error + predictors" where
  "identify_predictors_loop city_results [] acc = Inr acc"
| "identify_predictors_loop city_results (target # targets) acc =
     (case collect_significant city_results target CITY_ORDER [] of
        Inl e \<Rightarrow> Inl e
      | Inr city_significant \<Rightarrow>
          if city_significant \<noteq> [] then
            identify_predictors_loop city_results targets
              \<lparr>universal_predictors = (universal_predictors acc)(target \<mapsto> universal_of city_significant),
               city_specific_predictors =
                 (city_specific_predictors acc)(target \<mapsto> city_specific_of city_significant)\<rparr>
          else identify_predictors_loop city_results targets acc)"

definition identify_predictors :: "(string \<rightharpoonup> city_result) \<Rightarrow> py_error + predictors" where
  "identify_predictors city_results =
     identify_predictors_loop city_results TARGETS
       \<lparr>universal_predictors = Map.empty, city_specific_predictors = Map.empty\<rparr>"

section \<open>Notions used in the statements\<close>

text \<open>
  The rows of a table on which a feature and the outcome are both present; what it means
  that a week and a correlation are the optimum of the per-offset correlations; the column
  that \<open>get_lag_features\<close> recognises for one week; the per-city sets of
  significant-and-strong features, in the order of \<open>city_order\<close>, of the cities that
  supplied correlations for a target; and the keys that one target, or one week, writes
  into a results dictionary.
\<close>

definition complete_rows :: "dataframe \<Rightarrow> string \<Rightarrow> string \<Rightarrow> (string \<Rightarrow> number) list" where
  "complete_rows df feature target = filter (\<lambda>r. r feature \<noteq> NaN \<and> r target \<noteq> NaN) (rows df)"

definition optimum :: "number list \<Rightarrow> number \<Rightarrow> number \<Rightarrow> bool" where
  "optimum corrs week corr =
     (if \<forall>c \<in> set corrs. c = NaN then week = NaN \<and> corr = NaN
      else \<exists>i v. i < length corrs \<and> week = Val (real (LAG_RANGE ! i)) \<and> corr = Val v
             \<and> corrs ! i = Val v
             \<and> \<bar>v\<bar> = Max ((\<lambda>w. \<bar>w\<bar>) ` {w. Val w \<in> set corrs})
             \<and> (\<forall>j < i. \<forall>w. corrs ! j = Val w \<longrightarrow> \<bar>w\<bar> < \<bar>v\<bar>))"

definition is_digit :: "char \<Rightarrow> bool" where
  "is_digit c = (c \<in> set ''0123456789'')"

definition offset_column :: "dataframe \<Rightarrow> string \<Rightarrow> string \<Rightarrow> nat \<Rightarrow> string option" where
  "offset_column df var lag_type week =
     (if lag_type = ''simple'' then simple_lag_column (columns df) var week
      else if lag_type = ''rolling'' then rolling_lag_column (columns df) var week
      else None)"

definition entry_of :: "(string \<rightharpoonup> city_result) \<Rightarrow> string \<Rightarrow> string \<Rightarrow> (string \<times> string set) option" where
  "entry_of city_results target city_key =
     (case city_entry city_results target city_key of Inr e \<Rightarrow> e | Inl _ \<Rightarrow> None)"

definition city_sets :: "(string \<rightharpoonup> city_result) \<Rightarrow> string \<Rightarrow> string set list" where
  "city_sets city_results target =
     map snd (List.map_filter (entry_of city_results target) CITY_ORDER)"

definition target_keys :: "string \<Rightarrow> string set" where
  "target_keys t = {t @ ''_kruskal_h'', t @ ''_kruskal_p'', t @ ''_dunn_pvalues''}"

definition week_keys :: "nat \<Rightarrow> string set" where
  "week_keys week = {''lag_'' @ str_nat week, ''lag_'' @ str_nat week @ ''_p''}"

section \<open>Example inputs\<close>

text \<open>
  A decomposition whose components explain 50, 30, 15 and 5 per cent of the variance, a
  clustering library whose silhouette ties at the top for three and for five clusters, a
  small table with missing cells, a clustered table with a rank-test library, the
  statistical results of three cities, and two one-row lag tables.
\<close>

definition demo_pca :: "nat option \<Rightarrow> unit \<Rightarrow> py_error + pca_fit" where
  "demo_pca n X =
     Inr \<lparr>explained_variance_ratio = take (case n of None \<Rightarrow> 4 | Some m \<Rightarrow> m) [Val 0.5, Val 0.3, Val 0.15, Val 0.05],
          transformed = [replicate (case n of None \<Rightarrow> 4 | Some m \<Rightarrow> m) (Val 0)]\<rparr>"

definition demo_cluster_lib :: "(unit, nat) cluster_lib" where
  "demo_cluster_lib =
     \<lparr>KMeans_fit_predict = (\<lambda>kk X. Inr (kk, Val (1 / real kk))),
      silhouette_score = (\<lambda>X l. Inr (Val (if l = 3 \<or> l = 5 then 0.7 else 0.2))),
      calinski_harabasz_score = (\<lambda>X l. Inr (Val (real l))),
      davies_bouldin_score = (\<lambda>X l. Inr (Val 1))\<rparr>"

definition row_of :: "(string \<times> number) list \<Rightarrow> string \<Rightarrow> number" where
  "row_of cells_list c = (case map_of cells_list c of Some v \<Rightarrow> v | None \<Rightarrow> NaN)"

definition demo_stats_lib :: stats_lib where
  "demo_stats_lib =
     \<lparr>spearmanr = (\<lambda>x y. Inr (Val (real (length x)), Val 0.01)),
      pearsonr = (\<lambda>x y. Inl LibraryError)\<rparr>"

definition demo_df :: dataframe where
  "demo_df =
     \<lparr>columns = [''R_lag_1'', ''R_lag_10'', ''b'', ''pos''],
      rows = [row_of [(''R_lag_1'', Val 1), (''R_lag_10'', Val 4), (''pos'', Val 1)],
              row_of [(''R_lag_1'', Val 2), (''R_lag_10'', Val 5)],
              row_of [(''R_lag_10'', Val 6), (''pos'', Val 3)]]\<rparr>"

definition demo_rank_lib :: "nat rank_lib" where
  "demo_rank_lib =
     \<lparr>kruskal = (\<lambda>groups. Inr (Val 1, if groups = [[Val 1], [Val 2]] then Val 0.01 else Val 0.5)),
      posthoc_dunn = (\<lambda>pairs. Inr (length pairs))\<rparr>"

definition demo_clustered :: dataframe where
  "demo_clustered =
     \<lparr>columns = [''cluster'', ''pos'', ''egg''],
      rows = [row_of [(''cluster'', Val 0), (''pos'', Val 1), (''egg'', Val 5)],
              row_of [(''cluster'', Val 1), (''pos'', Val 2), (''egg'', Val 6)]]\<rparr>"

definition demo_stat :: "(string \<times> number) list \<Rightarrow> (string \<times> number) list \<Rightarrow> city_result" where
  "demo_stat corr pval =
     \<lparr>statistical = Some \<lparr>stat_correlations = map_of [(''pos'', corr)],
                          stat_p_values = map_of [(''pos'', pval)]\<rparr>\<rparr>"

definition demo_city_results :: "string \<rightharpoonup> city_result" where
  "demo_city_results =
     map_of
       [(''taipei'', demo_stat [(''f'', Val 0.5), (''g'', Val (- 0.4))] [(''f'', Val 0.0001), (''g'', Val 0.0002)]),
        (''kaohsiung'', demo_stat [(''f'', Val (- 0.6)), (''g'', Val 0.7)] [(''f'', Val 0.0001), (''g'', Val 0.0002)]),
        (''pingtung'', demo_stat [(''f'', Val 0.5), (''g'', Val 0.35)] [(''f'', Val 0.2), (''g'', Val 0.0002)])]"

definition demo_lag_row :: "string \<Rightarrow> number list \<Rightarrow> lag_row" where
  "demo_lag_row var corrs = \<lparr>variable = var, cells = zip lag_cols corrs\<rparr>"

definition demo_simple_table :: "lag_row list" where
  "demo_simple_table =
     [demo_lag_row ''R'' [Val 0.1, Val (- 0.5), NaN, Val 0.5, Val 0.2, NaN, NaN, NaN, NaN, NaN, NaN, NaN]]"

definition demo_rolling_table :: "lag_row list" where
  "demo_rolling_table =
     [demo_lag_row ''R'' [NaN, NaN, NaN, NaN, NaN, NaN, NaN, NaN, NaN, NaN, NaN, NaN]]"

section \<open>Bonferroni correction\<close>

text \<open>
  Claim C3.  For a non-empty collection of raw p-values and alpha = 0.05 the correction
  returns the threshold 0.05 divided by the number of p-values, and the flag of a feature
  is true exactly when its raw p-value is a number strictly below that threshold.
\<close>

theorem bonferroni_correction_threshold_and_flags:
  assumes "ps \<noteq> []"
  shows "\<exists>sig. bonferroni_correction ps 0.05 = Inr (0.05 / real (length ps), sig)
           \<and> length sig = length ps
           \<and> (\<forall>i < length ps. sig ! i \<longleftrightarrow> (\<exists>p. ps ! i = Val p \<and> p < 0.05 / real (length ps)))"
proof -
  let ?t = "0.05 / real (length ps)"
  let ?sig = "map (\<lambda>p. num_lt p ?t) ps"
  have flag: "num_lt q ?t \<longleftrightarrow> (\<exists>p. q = Val p \<and> p < ?t)" for q
    by (cases q) simp_all
  from assms have "bonferroni_correction ps 0.05 = Inr (?t, ?sig)"
    by (simp add: bonferroni_correction_def Let_def)
  moreover have "\<forall>i < length ps. ?sig ! i \<longleftrightarrow> (\<exists>p. ps ! i = Val p \<and> p < ?t)"
    using flag by simp
  ultimately show ?thesis by simp
qed

theorem bonferroni_correction_threshold_and_flags_witness:
  "[Val 0.001, Val 0.002, Val 0.004, Val 0.005, Val 0.01, Val 0.5, NaN, Val 0.9, Val 0.006, Val 1] \<noteq> []
   \<and> (\<exists>sig. bonferroni_correction
          [Val 0.001, Val 0.002, Val 0.004, Val 0.005, Val 0.01, Val 0.5, NaN, Val 0.9, Val 0.006, Val 1] 0.05
          = Inr (0.005, sig) \<and> length sig = 10 \<and> sig ! 2 \<and> \<not> sig ! 3 \<and> \<not> sig ! 6)"
proof -
  let ?ps = "[Val 0.001, Val 0.002, Val 0.004, Val 0.005, Val 0.01, Val 0.5, NaN, Val 0.9, Val 0.006, Val 1]"
  have ne: "?ps \<noteq> []" by simp
  from bonferroni_correction_threshold_and_flags [OF ne]
  obtain sig where s: "bonferroni_correction ?ps 0.05 = Inr (0.05 / real (length ?ps), sig)"
    "length sig = length ?ps"
    "\<forall>i < length ?ps. sig ! i \<longleftrightarrow> (\<exists>p. ?ps ! i = Val p \<and> p < 0.05 / real (length ?ps))"
    by blast
  have "\<exists>p. ?ps ! 2 = Val p \<and> p < 0.05 / real (length ?ps)"
    by (intro exI [of _ "0.004"]) simp
  then have "sig ! 2" using s(3) [rule_format, of 2] by simp
  moreover have "\<not> (\<exists>p. ?ps ! 3 = Val p \<and> p < 0.05 / real (length ?ps))" by auto
  then have "\<not> sig ! 3" using s(3) [rule_format, of 3] by simp
  moreover have "\<not> sig ! 6" using s(3) [rule_format, of 6] by simp
  ultimately show ?thesis using s(1,2) by simp
qed

text \<open>
  Claim C9.  The claim asks that an empty candidate feature set is handled locally.  On a
  table whose only columns are an identifier and the two outcomes, whatever its rows, the
  candidate set is empty and the analysis does not recover: the significance correction
  divides alpha by zero tests and the analysis ends with ZeroDivisionError.
\<close>

theorem analyze_empty_candidates_zero_division:
  "get_feature_columns \<lparr>columns = [''date'', ''pos'', ''egg''], rows = rs\<rparr> = []
   \<and> bonferroni_correction [] BONFERRONI_ALPHA = Inl ZeroDivisionError
   \<and> analyze lib \<lparr>columns = [''date'', ''pos'', ''egg''], rows = rs\<rparr> = Inl ZeroDivisionError"
  by (simp add: analyze_def analyze_target_def get_feature_columns_def IGNORE_COLUMNS_def
      TARGETS_def calculate_correlation_def bonferroni_correction_def)

text \<open>
  The same loop does recover from a missing outcome column: the target is skipped.
\<close>

lemma analyze_missing_outcomes_skipped:
  "analyze lib \<lparr>columns = [''date''], rows = rs\<rparr> = Inr []"
  by (simp add: analyze_def TARGETS_def)

text \<open>Assigning to a key that a dictionary does not have appends the entry.\<close>

lemma update_absent: "key \<notin> fst ` set al \<Longrightarrow> AList.update key v al = al @ [(key, v)]"
  by (induction al) auto

text \<open>
  In the analysis of a target the number of tests is the number of candidate features:
  with distinct column labels, the corrected threshold is 0.05 divided by the number of
  feature columns, and there is one flag per feature.
\<close>

lemma calculate_correlation_loop_keys:
  assumes "calculate_correlation_loop lib df fs target method cs ps = Inr (cs', ps')"
    and "distinct fs" and "set fs \<inter> fst ` set ps = {}"
  shows "map fst ps' = map fst ps @ fs"
  using assms
proof (induction fs arbitrary: cs ps)
  case Nil
  then show ?case by simp
next
  case (Cons f fs)
  from Cons.prems(1) obtain c p where
    run: "calculate_correlation_loop lib df fs target method
            (AList.update f c cs) (AList.update f p ps) = Inr (cs', ps')"
    by (auto split: sum.splits)
  from Cons.prems(3) have "f \<notin> fst ` set ps" by simp
  then have upd: "AList.update f p ps = ps @ [(f, p)]" by (rule update_absent)
  from Cons.prems(2,3) have "distinct fs" "set fs \<inter> fst ` set (ps @ [(f, p)]) = {}" by auto
  from Cons.IH [OF run [unfolded upd] this] show ?case by simp
qed

lemma analyze_target_threshold:
  assumes run: "analyze_target lib df (get_feature_columns df) target = Inr r"
    and cols: "distinct (columns df)"
  shows "corrected_alpha r = 0.05 / real (length (get_feature_columns df))
       \<and> length (significant r) = length (get_feature_columns df)"
proof -
  let ?fs = "get_feature_columns df"
  from run obtain cs ps ca sig where
    cc: "calculate_correlation lib df ?fs target CORRELATION_METHOD = Inr (cs, ps)" and
    bc: "bonferroni_correction (map snd ps) BONFERRONI_ALPHA = Inr (ca, sig)" and
    r: "corrected_alpha r = ca" "significant r = sig"
    by (auto simp: analyze_target_def Let_def split: sum.splits)
  from cols have "distinct ?fs" by (simp add: get_feature_columns_def)
  from calculate_correlation_loop_keys [OF cc [unfolded calculate_correlation_def] this]
  have "map fst ps = ?fs" by simp
  then have len: "length ps = length ?fs" by (metis length_map)
  from bc len have "ca = 0.05 / real (length ?fs)" "length sig = length ?fs"
    by (auto simp: bonferroni_correction_def BONFERRONI_ALPHA_def Let_def split: if_splits)
  with r show ?thesis by simp
qed

section \<open>Pairwise-complete correlation\<close>

lemma loc_mask_valid:
  "loc_mask df (valid_mask df [f, t]) c =
     map (\<lambda>r. r c) (filter (\<lambda>r. notna (r f) \<and> notna (r t)) (rows df))"
proof -
  have "map (\<lambda>(r, m). r c) (filter snd (zip rs (map (\<lambda>r. \<forall>c \<in> set [f, t]. notna (r c)) rs))) =
        map (\<lambda>r. r c) (filter (\<lambda>r. notna (r f) \<and> notna (r t)) rs)" for rs
    by (induction rs) simp_all
  then show ?thesis by (simp add: loc_mask_def valid_mask_def)
qed

lemma valid_mask_count:
  "length (filter id (valid_mask df [f, t])) = length (filter (\<lambda>r. notna (r f) \<and> notna (r t)) (rows df))"
proof -
  have "length (filter id (map (\<lambda>r. \<forall>c \<in> set [f, t]. notna (r c)) rs)) =
        length (filter (\<lambda>r. notna (r f) \<and> notna (r t)) rs)" for rs
    by (induction rs) simp_all
  then show ?thesis by (simp add: valid_mask_def)
qed

lemma notna_iff: "notna x \<longleftrightarrow> x \<noteq> NaN"
  by (cases x) (simp_all add: notna_def)

lemma correlate_feature_complete:
  assumes "feature \<in> set (columns df)" "target \<in> set (columns df)"
  shows "correlate_feature lib df feature target method =
     (if complete_rows df feature target = [] then Inr (NaN, NaN)
      else if method = ''spearman'' then
        spearmanr lib (map (\<lambda>r. r feature) (complete_rows df feature target))
                      (map (\<lambda>r. r target) (complete_rows df feature target))
      else if method = ''pearson'' then
        pearsonr lib (map (\<lambda>r. r feature) (complete_rows df feature target))
                     (map (\<lambda>r. r target) (complete_rows df feature target))
      else Inl ValueError)"
  using assms
  by (simp add: correlate_feature_def Let_def loc_mask_valid complete_rows_def notna_iff)

lemma correlate_feature_columns:
  "correlate_feature lib df feature target method = Inr cp \<Longrightarrow>
     feature \<in> set (columns df) \<and> target \<in> set (columns df)"
  by (auto simp: correlate_feature_def split: if_splits)

lemma calculate_correlation_loop_keeps:
  assumes "calculate_correlation_loop lib df fs target method cs ps = Inr (cs', ps')" "f \<notin> set fs"
  shows "map_of cs' f = map_of cs f \<and> map_of ps' f = map_of ps f"
  using assms
proof (induction fs arbitrary: cs ps)
  case Nil
  then show ?case by simp
next
  case (Cons a fs)
  from Cons.prems(1) obtain c p where cp: "correlate_feature lib df a target method = Inr (c, p)"
    and run: "calculate_correlation_loop lib df fs target method
                (AList.update a c cs) (AList.update a p ps) = Inr (cs', ps')"
    by (auto split: sum.splits)
  from Cons.prems(2) have "f \<noteq> a" "f \<notin> set fs" by auto
  with Cons.IH [OF run] show ?case by (simp add: update_conv')
qed

lemma calculate_correlation_loop_lookup:
  assumes "calculate_correlation_loop lib df fs target method cs ps = Inr (cs', ps')" "f \<in> set fs"
  shows "\<exists>c p. correlate_feature lib df f target method = Inr (c, p)
           \<and> map_of cs' f = Some c \<and> map_of ps' f = Some p"
  using assms
proof (induction fs arbitrary: cs ps)
  case Nil
  then show ?case by simp
next
  case (Cons a fs)
  from Cons.prems(1) obtain c p where cp: "correlate_feature lib df a target method = Inr (c, p)"
    and run: "calculate_correlation_loop lib df fs target method
                (AList.update a c cs) (AList.update a p ps) = Inr (cs', ps')"
    by (auto split: sum.splits)
  show ?case
  proof (cases "f \<in> set fs")
    case True
    from Cons.IH [OF run True] show ?thesis .
  next
    case False
    with Cons.prems(2) have fa: "f = a" by simp
    from calculate_correlation_loop_keeps [OF run False] fa cp show ?thesis
      by (simp add: update_conv')
  qed
qed

lemma complete_rows_projection:
  assumes "map (\<lambda>r. (r feature, r target)) (rows df') = map (\<lambda>r. (r feature, r target)) (rows df)"
  shows "map (\<lambda>r. (r feature, r target)) (complete_rows df' feature target) =
         map (\<lambda>r. (r feature, r target)) (complete_rows df feature target)"
proof -
  have "map (\<lambda>r. (r feature, r target)) (filter (\<lambda>r. r feature \<noteq> NaN \<and> r target \<noteq> NaN) rs) =
        filter (\<lambda>(a, b). a \<noteq> NaN \<and> b \<noteq> NaN) (map (\<lambda>r. (r feature, r target)) rs)" for rs
    by (induction rs) simp_all
  with assms show ?thesis by (simp add: complete_rows_def)
qed

lemma correlate_feature_projection:
  assumes same: "map (\<lambda>r. (r feature, r target)) (rows df') = map (\<lambda>r. (r feature, r target)) (rows df)"
    and r: "correlate_feature lib df feature target method = Inr cp"
    and r': "correlate_feature lib df' feature target method = Inr cp'"
  shows "cp' = cp"
proof -
  let ?v = "complete_rows df feature target" and ?v' = "complete_rows df' feature target"
  from complete_rows_projection [OF same]
  have p: "map (\<lambda>r. (r feature, r target)) ?v' = map (\<lambda>r. (r feature, r target)) ?v" .
  have "map (\<lambda>r. r feature) ?v' = map fst (map (\<lambda>r. (r feature, r target)) ?v')" by (simp add: comp_def)
  also have "\<dots> = map (\<lambda>r. r feature) ?v" unfolding p by (simp add: comp_def)
  finally have x: "map (\<lambda>r. r feature) ?v' = map (\<lambda>r. r feature) ?v" .
  have "map (\<lambda>r. r target) ?v' = map snd (map (\<lambda>r. (r feature, r target)) ?v')" by (simp add: comp_def)
  also have "\<dots> = map (\<lambda>r. r target) ?v" unfolding p by (simp add: comp_def)
  finally have y: "map (\<lambda>r. r target) ?v' = map (\<lambda>r. r target) ?v" .
  from arg_cong [OF p, of length] have "length ?v' = length ?v" by simp
  then have e: "?v' = [] \<longleftrightarrow> ?v = []" by (metis length_0_conv)
  from correlate_feature_columns [OF r]
  have cols: "feature \<in> set (columns df)" "target \<in> set (columns df)" by simp_all
  from correlate_feature_columns [OF r']
  have cols': "feature \<in> set (columns df')" "target \<in> set (columns df')" by simp_all
  have "correlate_feature lib df' feature target method = correlate_feature lib df feature target method"
    by (simp only: correlate_feature_complete [OF cols'] correlate_feature_complete [OF cols] x y e)
  with r r' show ?thesis by simp
qed

text \<open>
  Claim C7.  Whenever \<open>calculate_correlation\<close> returns, the coefficient and the p-value
  stored for a candidate feature are what the correlation routine returns on the values of
  that feature and of the outcome over exactly the rows where both are present; when
  there is no such row both are NaN, which is not the number 0.  They do not depend on any
  other column: a table that agrees on the feature and the outcome gives the same two
  values.
\<close>

theorem calculate_correlation_pairwise_complete:
  assumes run: "calculate_correlation lib df features target method = Inr (cs, ps)"
    and mem: "feature \<in> set features"
  shows "(if complete_rows df feature target = []
          then map_of cs feature = Some NaN \<and> map_of ps feature = Some NaN
          else \<exists>c p. map_of cs feature = Some c \<and> map_of ps feature = Some p
                 \<and> (if method = ''spearman''
                     then spearmanr lib (map (\<lambda>r. r feature) (complete_rows df feature target))
                            (map (\<lambda>r. r target) (complete_rows df feature target)) = Inr (c, p)
                     else method = ''pearson'' \<and>
                          pearsonr lib (map (\<lambda>r. r feature) (complete_rows df feature target))
                            (map (\<lambda>r. r target) (complete_rows df feature target)) = Inr (c, p)))
       \<and> (\<forall>df' cs' ps'.
             map (\<lambda>r. (r feature, r target)) (rows df') = map (\<lambda>r. (r feature, r target)) (rows df)
             \<and> calculate_correlation lib df' features target method = Inr (cs', ps')
             \<longrightarrow> map_of cs' feature = map_of cs feature \<and> map_of ps' feature = map_of ps feature)"
    (is "?own \<and> ?indep")
proof -
  from calculate_correlation_loop_lookup [OF run [unfolded calculate_correlation_def] mem]
  obtain c p where cp: "correlate_feature lib df feature target method = Inr (c, p)"
    "map_of cs feature = Some c" "map_of ps feature = Some p" by blast
  from correlate_feature_columns [OF cp(1)]
  have cols: "feature \<in> set (columns df)" "target \<in> set (columns df)" by simp_all
  have part1: ?own
  proof (cases "complete_rows df feature target = []")
    case True
    with cp(1) correlate_feature_complete [OF cols, of lib "method"] have "c = NaN" "p = NaN"
      by simp_all
    with True cp(2,3) show ?thesis by simp
  next
    case False
    note rows = this
    show ?thesis
    proof (cases "method = ''spearman''")
      case True
      with rows cp(1) correlate_feature_complete [OF cols, of lib "method"]
      have "spearmanr lib (map (\<lambda>r. r feature) (complete_rows df feature target))
              (map (\<lambda>r. r target) (complete_rows df feature target)) = Inr (c, p)"
        by simp
      with rows True cp(2,3) show ?thesis by simp
    next
      case False
      note not_spearman = this
      show ?thesis
      proof (cases "method = ''pearson''")
        case True
        with rows not_spearman cp(1) correlate_feature_complete [OF cols, of lib "method"]
        have "pearsonr lib (map (\<lambda>r. r feature) (complete_rows df feature target))
                (map (\<lambda>r. r target) (complete_rows df feature target)) = Inr (c, p)"
          by simp
        with rows not_spearman True cp(2,3) show ?thesis by simp
      next
        case False
        with rows not_spearman cp(1) correlate_feature_complete [OF cols, of lib "method"]
        show ?thesis by simp
      qed
    qed
  qed
  have part2: "map_of cs' feature = map_of cs feature \<and> map_of ps' feature = map_of ps feature"
    if same: "map (\<lambda>r. (r feature, r target)) (rows df') = map (\<lambda>r. (r feature, r target)) (rows df)"
      and run': "calculate_correlation lib df' features target method = Inr (cs', ps')"
    for df' cs' ps'
  proof -
    from calculate_correlation_loop_lookup [OF run' [unfolded calculate_correlation_def] mem]
    obtain c' p' where cp': "correlate_feature lib df' feature target method = Inr (c', p')"
      "map_of cs' feature = Some c'" "map_of ps' feature = Some p'" by blast
    from correlate_feature_projection [OF same cp(1) cp'(1)] cp cp' show ?thesis by simp
  qed
  have ?indep
    by (intro allI impI; elim conjE; rule part2; assumption)
  with part1 show ?thesis by (rule conjI)
qed

theorem calculate_correlation_pairwise_complete_witness:
  "''b'' \<in> set [''R_lag_1'', ''b'']
   \<and> (\<exists>cs ps. calculate_correlation demo_stats_lib demo_df [''R_lag_1'', ''b''] ''pos'' ''spearman''
                  = Inr (cs, ps)
         \<and> map_of cs ''b'' = Some NaN \<and> map_of ps ''b'' = Some NaN)"
proof -
  have mem: "''b'' \<in> set [''R_lag_1'', ''b'']" by simp
  have "\<exists>cs ps. calculate_correlation demo_stats_lib demo_df [''R_lag_1'', ''b''] ''pos'' ''spearman''
                  = Inr (cs, ps)"
    by (simp add: calculate_correlation_def correlate_feature_def demo_df_def demo_stats_lib_def
        valid_mask_def loc_mask_def row_of_def notna_def)
  then obtain cs ps where
    run: "calculate_correlation demo_stats_lib demo_df [''R_lag_1'', ''b''] ''pos'' ''spearman''
            = Inr (cs, ps)" by blast
  have none: "complete_rows demo_df ''b'' ''pos'' = []"
    by (simp add: complete_rows_def demo_df_def row_of_def)
  from calculate_correlation_pairwise_complete [OF run mem] none
  have "map_of cs ''b'' = Some NaN \<and> map_of ps ''b'' = Some NaN" by simp
  with mem run show ?thesis by blast
qed

section \<open>Selection of the component count\<close>

lemma cumsum_from_length [simp]: "length (cumsum_from acc xs) = length xs"
  by (induction xs arbitrary: acc) simp_all

lemma cumsum_length [simp]: "length (cumsum xs) = length xs"
  by (simp add: cumsum_def)

lemma cumsum_from_nth:
  "i < length xs \<Longrightarrow> cumsum_from acc xs ! i = foldl num_add acc (take (Suc i) xs)"
proof (induction xs arbitrary: acc i)
  case Nil
  then show ?case by simp
next
  case (Cons x xs)
  then show ?case by (cases i) simp_all
qed

lemma cumsum_nth: "i < length xs \<Longrightarrow> cumsum xs ! i = cum_ratio xs (Suc i)"
  by (simp add: cumsum_def cum_ratio_def cumsum_from_nth)

lemma first_index_Some:
  "first_index bs = Some i \<longleftrightarrow> i < length bs \<and> bs ! i \<and> (\<forall>j < i. \<not> bs ! j)"
proof (induction bs arbitrary: i)
  case Nil
  then show ?case by simp
next
  case (Cons b bs)
  show ?case
  proof (cases b)
    case True
    then show ?thesis by (cases i) auto
  next
    case False
    show ?thesis
    proof (cases i)
      case 0
      with False show ?thesis by simp
    next
      case (Suc n)
      with False Cons.IH [of n] show ?thesis
        by (auto simp: less_Suc_eq_0_disj)
    qed
  qed
qed

lemma first_index_None: "first_index bs = None \<longleftrightarrow> (\<forall>j < length bs. \<not> bs ! j)"
proof (induction bs)
  case Nil
  then show ?case by simp
next
  case (Cons b bs)
  then show ?case by (auto simp: less_Suc_eq_0_disj)
qed

lemma cumsum_eq_Nil [simp]: "cumsum xs = [] \<longleftrightarrow> xs = []"
  by (metis cumsum_length length_0_conv)

lemma num_ge_mono: "num_ge c t2 \<Longrightarrow> t1 \<le> t2 \<Longrightarrow> num_ge c t1"
  by (cases c) simp_all

lemma reaches_iff:
  "reaches ratios target \<longleftrightarrow> (\<exists>i < length ratios. num_ge (cumsum ratios ! i) target)"
proof
  assume "reaches ratios target"
  then obtain C where C: "1 \<le> C" "C \<le> length ratios" "num_ge (cum_ratio ratios C) target"
    by (auto simp: reaches_def)
  then have "C - 1 < length ratios" "Suc (C - 1) = C" by simp_all
  with C(3) cumsum_nth [of "C - 1" ratios] show "\<exists>i < length ratios. num_ge (cumsum ratios ! i) target"
    by auto
next
  assume "\<exists>i < length ratios. num_ge (cumsum ratios ! i) target"
  then obtain i where "i < length ratios" "num_ge (cumsum ratios ! i) target" by blast
  then have "Suc i \<in> {1..length ratios}" "num_ge (cum_ratio ratios (Suc i)) target"
    by (simp_all add: cumsum_nth)
  then show "reaches ratios target" unfolding reaches_def by blast
qed

lemma n_components_target_reached:
  assumes "reaches ratios target"
  shows "\<exists>n. n_components_target target (cumsum ratios) = Inr n \<and> 1 \<le> n \<and> n \<le> length ratios
           \<and> num_ge (cum_ratio ratios n) target
           \<and> (\<forall>C. 1 \<le> C \<and> C < n \<longrightarrow> \<not> num_ge (cum_ratio ratios C) target)"
proof -
  let ?bs = "map (\<lambda>c. num_ge c target) (cumsum ratios)"
  from assms obtain i where i: "i < length ratios" "num_ge (cumsum ratios ! i) target"
    by (auto simp: reaches_iff)
  then have "\<not> (\<forall>j < length ?bs. \<not> ?bs ! j)" by auto
  then obtain m where m: "first_index ?bs = Some m"
    using first_index_None [of ?bs] by (cases "first_index ?bs") auto
  then have props: "m < length ratios" "num_ge (cumsum ratios ! m) target"
    "\<forall>j < m. \<not> num_ge (cumsum ratios ! j) target"
    using first_index_Some [of ?bs m] by auto
  from i have ne: "?bs \<noteq> []" by auto
  have res: "n_components_target target (cumsum ratios) = Inr (Suc m)"
    using m ne by (simp add: n_components_target_def np_argmax_def)
  have least: "\<not> num_ge (cum_ratio ratios C) target" if "1 \<le> C" "C < Suc m" for C
  proof -
    from that have "C - 1 < m" "Suc (C - 1) = C" by simp_all
    moreover from this props(1) have "C - 1 < length ratios" by simp
    ultimately show ?thesis using props(3) cumsum_nth [of "C - 1" ratios] by auto
  qed
  from props(1,2) have "num_ge (cum_ratio ratios (Suc m)) target"
    by (simp add: cumsum_nth)
  with res props(1) least show ?thesis by auto
qed

lemma n_components_target_unreached:
  assumes "ratios \<noteq> []" "\<not> reaches ratios target"
  shows "n_components_target target (cumsum ratios) = Inr 1"
proof -
  let ?bs = "map (\<lambda>c. num_ge c target) (cumsum ratios)"
  from assms(2) have "\<forall>j < length ?bs. \<not> ?bs ! j" by (auto simp: reaches_iff)
  then have "first_index ?bs = None" by (simp only: first_index_None)
  moreover from assms(1) have "?bs \<noteq> []" by simp
  ultimately show ?thesis by (simp add: n_components_target_def np_argmax_def)
qed

lemma n_components_target_empty: "n_components_target target (cumsum []) = Inl ValueError"
  by (simp add: n_components_target_def np_argmax_def cumsum_def)

lemma n_components_target_ge1:
  "n_components_target target cumvar = Inr n \<Longrightarrow> 1 \<le> n"
  by (auto simp: n_components_target_def split: sum.splits)

lemma perform_pca_with_n:
  assumes "perform_pca_with PCA target X = Inr res" "PCA None X = Inr full"
  shows "n_components_target target (cumsum (explained_variance_ratio full)) = Inr (n_components res)"
  using assms by (auto simp: perform_pca_with_def Let_def split: sum.splits)

text \<open>
  Claim C2.  When some prefix of the components of the full decomposition reaches the
  configured target 0.90, and the library refits with any component count between one and
  the number of components (returning as many columns as asked for), \<open>_perform_pca\<close>
  returns; its component count \<open>C\<close> is at least one, the cumulative ratio of the first \<open>C\<close>
  components is at least 0.90, no smaller count from one on reaches 0.90, and every row of
  the reduced matrix has exactly \<open>C\<close> entries.
\<close>

theorem perform_pca_smallest_component_count:
  assumes full: "PCA None X = Inr full"
    and reach: "reaches (explained_variance_ratio full) PCA_VARIANCE_TARGET"
    and lib: "\<And>n. 1 \<le> n \<Longrightarrow> n \<le> length (explained_variance_ratio full) \<Longrightarrow>
               \<exists>pca. PCA (Some n) X = Inr pca \<and> (\<forall>row \<in> set (transformed pca). length row = n)"
  shows "\<exists>res. perform_pca PCA X = Inr res
           \<and> 1 \<le> n_components res
           \<and> num_ge (cum_ratio (explained_variance_ratio full) (n_components res)) 0.90
           \<and> (\<forall>C. 1 \<le> C \<and> C < n_components res \<longrightarrow>
                  \<not> num_ge (cum_ratio (explained_variance_ratio full) C) 0.90)
           \<and> (\<forall>row \<in> set (X_pca res). length row = n_components res)"
proof -
  let ?r = "explained_variance_ratio full"
  from n_components_target_reached [OF reach]
  obtain n where n: "n_components_target PCA_VARIANCE_TARGET (cumsum ?r) = Inr n"
    "1 \<le> n" "n \<le> length ?r" "num_ge (cum_ratio ?r n) PCA_VARIANCE_TARGET"
    "\<forall>C. 1 \<le> C \<and> C < n \<longrightarrow> \<not> num_ge (cum_ratio ?r C) PCA_VARIANCE_TARGET"
    by blast
  from lib [OF n(2,3)] obtain pca where pca: "PCA (Some n) X = Inr pca"
    "\<forall>row \<in> set (transformed pca). length row = n" by blast
  obtain res where res: "perform_pca PCA X = Inr res" "n_components res = n" "X_pca res = transformed pca"
    using full n(1) pca(1) by (simp add: perform_pca_def perform_pca_with_def)
  have t: "PCA_VARIANCE_TARGET = 0.90" by (simp add: PCA_VARIANCE_TARGET_def)
  show ?thesis
    using res n(2,4,5) pca(2) unfolding t by auto
qed

lemma reaches_demo: "reaches [Val 0.5, Val 0.3, Val 0.15, Val 0.05] 0.9"
  unfolding reaches_def
  by (rule bexI [of _ 3]) (simp_all add: cum_ratio_def)

theorem perform_pca_smallest_component_count_witness:
  "\<exists>res. perform_pca demo_pca () = Inr res \<and> n_components res = 3
      \<and> (\<forall>row \<in> set (X_pca res). length row = 3)"
proof -
  let ?full = "\<lparr>explained_variance_ratio = [Val 0.5, Val 0.3, Val 0.15, Val 0.05],
                transformed = [replicate 4 (Val 0)]\<rparr>"
  have full: "demo_pca None () = Inr ?full" by (simp add: demo_pca_def)
  have reach: "reaches (explained_variance_ratio ?full) PCA_VARIANCE_TARGET"
    using reaches_demo by (simp add: PCA_VARIANCE_TARGET_def)
  have lib: "\<exists>pca. demo_pca (Some n) () = Inr pca \<and> (\<forall>row \<in> set (transformed pca). length row = n)"
    if "1 \<le> n" "n \<le> length (explained_variance_ratio ?full)" for n
    by (simp add: demo_pca_def)
  from perform_pca_smallest_component_count [of demo_pca "()" ?full, OF full reach lib]
  obtain res where res: "perform_pca demo_pca () = Inr res" "1 \<le> n_components res"
    "num_ge (cum_ratio (explained_variance_ratio ?full) (n_components res)) 0.90"
    "\<forall>C. 1 \<le> C \<and> C < n_components res \<longrightarrow>
       \<not> num_ge (cum_ratio (explained_variance_ratio ?full) C) 0.90"
    "\<forall>row \<in> set (X_pca res). length row = n_components res"
    by blast
  have c3: "num_ge (cum_ratio (explained_variance_ratio ?full) 3) 0.90"
    by (simp add: cum_ratio_def)
  have "\<not> 3 < n_components res" using res(4) c3 by auto
  moreover have "n_components res \<noteq> 1" using res(3) by (auto simp: cum_ratio_def)
  moreover have "n_components res \<noteq> 2"
  proof
    assume "n_components res = 2"
    with res(3) show False by (simp add: cum_ratio_def numeral_2_eq_2)
  qed
  ultimately have "n_components res = 3" using res(2) by arith
  with res(1,5) show ?thesis by auto
qed

lemma foldl_num_add_Val: "foldl num_add (Val a) (map Val rs) = Val (a + sum_list rs)"
  by (induction rs arbitrary: a) (simp_all add: add.assoc)

lemma reaches_total:
  assumes "rs \<noteq> []" "t \<le> sum_list rs"
  shows "reaches (map Val rs) t"
proof -
  from assms(1) have "length rs \<in> {1..length (map Val rs)}" by (cases rs) simp_all
  moreover have "num_ge (cum_ratio (map Val rs) (length rs)) t"
    using assms(2) by (simp add: cum_ratio_def foldl_num_add_Val)
  ultimately show ?thesis unfolding reaches_def by blast
qed

text \<open>
  Claim C8.  For one input matrix and one decomposition, raising the variance target from
  \<open>t1\<close> to \<open>t2\<close> never lowers the selected component count, as long as the raised target
  is still reached by some prefix whenever the lower one is (every target up to the total
  of the ratios is reached, see \<open>reaches_total\<close>; when neither is reached both counts are
  one).
\<close>

theorem n_components_monotone_in_target:
  assumes le: "t1 \<le> t2"
    and full: "PCA None X = Inr full"
    and reach: "reaches (explained_variance_ratio full) t1 \<Longrightarrow> reaches (explained_variance_ratio full) t2"
    and r1: "perform_pca_with PCA t1 X = Inr res1"
    and r2: "perform_pca_with PCA t2 X = Inr res2"
  shows "n_components res1 \<le> n_components res2"
proof -
  let ?r = "explained_variance_ratio full"
  have n1: "n_components_target t1 (cumsum ?r) = Inr (n_components res1)"
    using perform_pca_with_n [OF r1 full] .
  have n2: "n_components_target t2 (cumsum ?r) = Inr (n_components res2)"
    using perform_pca_with_n [OF r2 full] .
  have ne: "?r \<noteq> []"
    using n1 n_components_target_empty by (cases ?r) auto
  show ?thesis
  proof (cases "reaches ?r t1")
    case False
    with ne n1 have "n_components res1 = 1"
      by (simp add: n_components_target_unreached)
    with n_components_target_ge1 [OF n2] show ?thesis by simp
  next
    case True
    from n_components_target_reached [OF reach [OF True]] n2
    have hi: "num_ge (cum_ratio ?r (n_components res2)) t2" "1 \<le> n_components res2" by auto
    from n_components_target_reached [OF True] n1
    have lo: "\<forall>C. 1 \<le> C \<and> C < n_components res1 \<longrightarrow> \<not> num_ge (cum_ratio ?r C) t1" by auto
    from hi(1) le have "num_ge (cum_ratio ?r (n_components res2)) t1" by (rule num_ge_mono)
    with lo hi(2) show ?thesis by (meson not_le_imp_less)
  qed
qed

lemma reaches_demo95: "reaches [Val 0.5, Val 0.3, Val 0.15, Val 0.05] 0.95"
  unfolding reaches_def
  by (rule bexI [of _ 3]) (simp_all add: cum_ratio_def)

theorem n_components_monotone_in_target_witness:
  "(0.80::real) \<le> 0.95
   \<and> (\<exists>res1 res2. perform_pca_with demo_pca 0.80 () = Inr res1
          \<and> perform_pca_with demo_pca 0.95 () = Inr res2
          \<and> n_components res1 = 2 \<and> n_components res1 \<le> n_components res2)"
proof -
  let ?full = "\<lparr>explained_variance_ratio = [Val 0.5, Val 0.3, Val 0.15, Val 0.05],
                transformed = [replicate 4 (Val 0)]\<rparr>"
  have le: "(0.80::real) \<le> 0.95" by simp
  have full: "demo_pca None () = Inr ?full" by (simp add: demo_pca_def)
  have reach: "reaches (explained_variance_ratio ?full) 0.95" using reaches_demo95 by simp
  have "\<exists>res1. perform_pca_with demo_pca 0.80 () = Inr res1 \<and> n_components res1 = 2"
    by (simp add: perform_pca_with_def demo_pca_def n_components_target_def np_argmax_def cumsum_def)
  then obtain res1 where r1: "perform_pca_with demo_pca 0.80 () = Inr res1" "n_components res1 = 2"
    by blast
  have "\<exists>res2. perform_pca_with demo_pca 0.95 () = Inr res2"
    by (simp add: perform_pca_with_def demo_pca_def n_components_target_def np_argmax_def cumsum_def)
  then obtain res2 where r2: "perform_pca_with demo_pca 0.95 () = Inr res2" by blast
  from n_components_monotone_in_target [OF le full reach r1(1) r2]
  have "n_components res1 \<le> n_components res2" .
  with le r1 r2 show ?thesis by blast
qed

section \<open>Selection of the cluster count\<close>

lemma K_RANGE: "CLUSTERING_K_RANGE = [2, 3, 4, 5, 6, 7, 8, 9, 10]"
  by (simp add: CLUSTERING_K_RANGE_def CLUSTERING_K_MIN_def CLUSTERING_K_MAX_def upt_rec)

lemma first_max_from_None:
  "first_max_from i best xs = None \<longleftrightarrow> best = None \<and> (\<forall>x \<in> set xs. x = NaN)"
proof (induction xs arbitrary: i best)
  case Nil
  then show ?case by simp
next
  case (Cons x xs)
  then show ?case by (cases x) (auto split: option.splits)
qed

lemma first_max_from_Some:
  assumes "first_max_from i best xs = Some (m, v)"
  shows "(best = Some (m, v) \<and> (\<forall>w. Val w \<in> set xs \<longrightarrow> w \<le> v))
       \<or> (i \<le> m \<and> m - i < length xs \<and> xs ! (m - i) = Val v
           \<and> (\<forall>j b. best = Some (j, b) \<longrightarrow> b < v)
           \<and> (\<forall>w. Val w \<in> set xs \<longrightarrow> w \<le> v)
           \<and> (\<forall>j < m - i. \<forall>w. xs ! j = Val w \<longrightarrow> w < v))"
  using assms
proof (induction xs arbitrary: i best)
  case Nil
  then show ?case by simp
next
  case (Cons x xs)
  show ?case
  proof (cases x)
    case NaN
    with Cons.prems have run: "first_max_from (Suc i) best xs = Some (m, v)" by simp
    from Cons.IH [OF run] show ?thesis
    proof
      assume "best = Some (m, v) \<and> (\<forall>w. Val w \<in> set xs \<longrightarrow> w \<le> v)"
      with NaN show ?thesis by auto
    next
      assume r: "Suc i \<le> m \<and> m - Suc i < length xs \<and> xs ! (m - Suc i) = Val v
           \<and> (\<forall>j b. best = Some (j, b) \<longrightarrow> b < v)
           \<and> (\<forall>w. Val w \<in> set xs \<longrightarrow> w \<le> v)
           \<and> (\<forall>j < m - Suc i. \<forall>w. xs ! j = Val w \<longrightarrow> w < v)"
      then have mi: "m - i = Suc (m - Suc i)" by arith
      have "\<forall>j < m - i. \<forall>w. (x # xs) ! j = Val w \<longrightarrow> w < v"
      proof (intro allI impI)
        fix j w assume "j < m - i" "(x # xs) ! j = Val w"
        with NaN r mi show "w < v" by (cases j) auto
      qed
      with r mi NaN show ?thesis by auto
    qed
  next
    case (Val a)
    let ?best = "case best of None \<Rightarrow> Some (i, a)
                 | Some (j, b) \<Rightarrow> if a > b then Some (i, a) else Some (j, b)"
    from Val Cons.prems have run: "first_max_from (Suc i) ?best xs = Some (m, v)" by simp
    from Cons.IH [OF run] show ?thesis
    proof
      assume l: "?best = Some (m, v) \<and> (\<forall>w. Val w \<in> set xs \<longrightarrow> w \<le> v)"
      show ?thesis
      proof (cases best)
        case None
        with l Val show ?thesis by auto
      next
        case (Some jb)
        obtain j b where jb: "jb = (j, b)" by (cases jb)
        show ?thesis
        proof (cases "a > b")
          case True
          with l Some jb Val show ?thesis by auto
        next
          case False
          with l Some jb Val show ?thesis by auto
        qed
      qed
    next
      assume r: "Suc i \<le> m \<and> m - Suc i < length xs \<and> xs ! (m - Suc i) = Val v
           \<and> (\<forall>j b. ?best = Some (j, b) \<longrightarrow> b < v)
           \<and> (\<forall>w. Val w \<in> set xs \<longrightarrow> w \<le> v)
           \<and> (\<forall>j < m - Suc i. \<forall>w. xs ! j = Val w \<longrightarrow> w < v)"
      then have mi: "m - i = Suc (m - Suc i)" by arith
      have av: "a < v" and bv: "\<forall>j b. best = Some (j, b) \<longrightarrow> b < v"
        using r by (auto split: option.splits if_splits)
      have "\<forall>j < m - i. \<forall>w. (x # xs) ! j = Val w \<longrightarrow> w < v"
      proof (intro allI impI)
        fix j w assume "j < m - i" "(x # xs) ! j = Val w"
        with Val r mi av show "w < v" by (cases j) auto
      qed
      with r mi Val av bv show ?thesis by auto
    qed
  qed
qed

lemma idxmax_Inr:
  assumes "idxmax xs = Inr m"
  shows "m < length xs \<and> (\<exists>v. xs ! m = Val v
           \<and> (\<forall>j < length xs. \<forall>w. xs ! j = Val w \<longrightarrow> w \<le> v)
           \<and> (\<forall>j < m. \<forall>w. xs ! j = Val w \<longrightarrow> w < v))"
proof -
  from assms obtain v where "first_max_from 0 None xs = Some (m, v)"
    by (auto simp: idxmax_def split: option.splits)
  from first_max_from_Some [OF this]
  have "m < length xs" "xs ! m = Val v" "\<forall>w. Val w \<in> set xs \<longrightarrow> w \<le> v"
    "\<forall>j < m. \<forall>w. xs ! j = Val w \<longrightarrow> w < v" by auto
  moreover from this(3) have "\<forall>j < length xs. \<forall>w. xs ! j = Val w \<longrightarrow> w \<le> v"
    by (metis nth_mem)
  ultimately show ?thesis by blast
qed

lemma idxmax_Inl: "idxmax xs = Inl e \<longleftrightarrow> e = ValueError \<and> list_all isnan xs"
proof -
  have "(\<forall>x \<in> set xs. x = NaN) \<longleftrightarrow> list_all isnan xs"
    by (induction xs) (auto elim: isnan.elims)
  then show ?thesis
    using first_max_from_None [of 0 None xs]
    by (auto simp: idxmax_def split: option.splits)
qed

lemma metrics_loop_rows:
  assumes "metrics_loop lib X ks = Inr rs"
  shows "length rs = length ks \<and> (\<forall>i < length ks. cluster_metrics lib X (ks ! i) = Inr (rs ! i))"
  using assms
proof (induction ks arbitrary: rs)
  case Nil
  then show ?case by simp
next
  case (Cons a ks)
  then obtain row rest where p: "cluster_metrics lib X a = Inr row" "metrics_loop lib X ks = Inr rest"
    "rs = row # rest"
    by (auto split: sum.splits)
  from Cons.IH [OF p(2)] p(1,3) show ?case
    by (auto simp: nth_Cons split: nat.splits)
qed

lemma cluster_metrics_k: "cluster_metrics lib X kk = Inr row \<Longrightarrow> k row = kk"
  by (auto simp: cluster_metrics_def split: sum.splits)

lemma cluster_metrics_other_indices:
  assumes "cluster_metrics lib X kk = Inr row"
    and "cluster_metrics (lib\<lparr>calinski_harabasz_score := c', davies_bouldin_score := d'\<rparr>) X kk = Inr row'"
  shows "silhouette row' = silhouette row"
  using assms by (auto simp: cluster_metrics_def split: sum.splits)


lemma K_RANGE_length: "length CLUSTERING_K_RANGE = 9"
  by (simp add: CLUSTERING_K_RANGE_def CLUSTERING_K_MIN_def CLUSTERING_K_MAX_def)

lemma K_RANGE_nth: "i < 9 \<Longrightarrow> CLUSTERING_K_RANGE ! i = i + 2"
  using nth_upt [of 2 i 11]
  by (simp add: CLUSTERING_K_RANGE_def CLUSTERING_K_MIN_def CLUSTERING_K_MAX_def)

lemma optimize_clustering_Inr:
  assumes "optimize_clustering lib X = Inr res"
  shows "\<exists>rs idx. metrics_loop lib X CLUSTERING_K_RANGE = Inr rs
           \<and> idxmax (map silhouette rs) = Inr idx
           \<and> optimal_k res = k (rs ! idx)
           \<and> optimal_silhouette res = silhouette (rs ! idx)
           \<and> optimal_calinski res = calinski_harabasz (rs ! idx)
           \<and> optimal_davies res = davies_bouldin (rs ! idx)
           \<and> map fst (clustering_metrics res) = map k rs"
  using assms
  by (auto simp: optimize_clustering_def Let_def comp_def split: sum.splits)

text \<open>
  Claim C1.  Whenever \<open>_optimize_clustering\<close> returns, its metrics table lists the
  candidates 2 to 10 in ascending order; the optimal k lies in that range, its silhouette
  is a number that no candidate's silhouette exceeds, and every candidate below it has a
  strictly smaller silhouette (or none), so the first maximum is kept on ties.  The
  Calinski-Harabasz and Davies-Bouldin values of the optimal k are reported.  Replacing
  the Calinski-Harabasz and Davies-Bouldin indices by any others that let the scan finish
  leaves the optimal k unchanged.
\<close>

theorem optimize_clustering_first_max_silhouette:
  assumes "optimize_clustering lib X = Inr res"
  shows "map fst (clustering_metrics res) = [2, 3, 4, 5, 6, 7, 8, 9, 10]
       \<and> optimal_k res \<in> {2..10}
       \<and> (\<exists>row s. cluster_metrics lib X (optimal_k res) = Inr row \<and> silhouette row = Val s
             \<and> optimal_silhouette res = Val s
             \<and> optimal_calinski res = calinski_harabasz row
             \<and> optimal_davies res = davies_bouldin row
             \<and> (\<forall>kk \<in> {2..10}. \<forall>r t. cluster_metrics lib X kk = Inr r \<and> silhouette r = Val t \<longrightarrow>
                    t \<le> s \<and> (kk < optimal_k res \<longrightarrow> t < s)))
       \<and> (\<forall>c' d' res'.
             optimize_clustering (lib\<lparr>calinski_harabasz_score := c', davies_bouldin_score := d'\<rparr>) X
               = Inr res' \<longrightarrow> optimal_k res' = optimal_k res)"
proof -
  from optimize_clustering_Inr [OF assms]
  obtain rs idx where rs: "metrics_loop lib X CLUSTERING_K_RANGE = Inr rs"
    and idx: "idxmax (map silhouette rs) = Inr idx"
    and ok: "optimal_k res = k (rs ! idx)"
    and os: "optimal_silhouette res = silhouette (rs ! idx)"
    and oc: "optimal_calinski res = calinski_harabasz (rs ! idx)"
    and od: "optimal_davies res = davies_bouldin (rs ! idx)"
    and tab: "map fst (clustering_metrics res) = map k rs"
    by blast
  from metrics_loop_rows [OF rs]
  have len: "length rs = 9"
    and row: "\<And>i. i < 9 \<Longrightarrow> cluster_metrics lib X (i + 2) = Inr (rs ! i)"
    by (auto simp: K_RANGE_length K_RANGE_nth)
  have kr: "k (rs ! i) = i + 2" if "i < 9" for i
    using cluster_metrics_k [OF row [OF that]] .
  from idxmax_Inr [OF idx] len
  obtain s where s: "idx < 9" "silhouette (rs ! idx) = Val s"
    "\<forall>j < 9. \<forall>w. silhouette (rs ! j) = Val w \<longrightarrow> w \<le> s"
    "\<forall>j < idx. \<forall>w. silhouette (rs ! j) = Val w \<longrightarrow> w < s"
    by auto
  have okv: "optimal_k res = idx + 2" using ok kr [OF s(1)] by simp
  have "map k rs = map (\<lambda>i. i + 2) [0..<9]"
    using len kr by (intro nth_equalityI) auto
  also have "\<dots> = [2, 3, 4, 5, 6, 7, 8, 9, 10]" by (simp add: upt_rec)
  finally have part1: "map fst (clustering_metrics res) = [2, 3, 4, 5, 6, 7, 8, 9, 10]"
    using tab by simp
  have part2: "optimal_k res \<in> {2..10}" using okv s(1) by simp
  have best: "\<forall>kk \<in> {2..10}. \<forall>r t. cluster_metrics lib X kk = Inr r \<and> silhouette r = Val t \<longrightarrow>
                    t \<le> s \<and> (kk < optimal_k res \<longrightarrow> t < s)"
  proof (intro ballI allI impI)
    fix kk r t
    assume kk: "kk \<in> {2..10}" and r: "cluster_metrics lib X kk = Inr r \<and> silhouette r = Val t"
    from kk have i: "kk - 2 < 9" "kk - 2 + 2 = kk" by auto
    from row [OF i(1)] i(2) r have sil: "silhouette (rs ! (kk - 2)) = Val t" by simp
    from s(3) i(1) sil have "t \<le> s" by blast
    moreover have "t < s" if "kk < optimal_k res"
    proof -
      from that okv have "kk - 2 < idx" using kk by auto
      with s(4) sil show ?thesis by blast
    qed
    ultimately show "t \<le> s \<and> (kk < optimal_k res \<longrightarrow> t < s)" by blast
  qed
  have part3: "\<exists>row s. cluster_metrics lib X (optimal_k res) = Inr row \<and> silhouette row = Val s
             \<and> optimal_silhouette res = Val s
             \<and> optimal_calinski res = calinski_harabasz row
             \<and> optimal_davies res = davies_bouldin row
             \<and> (\<forall>kk \<in> {2..10}. \<forall>r t. cluster_metrics lib X kk = Inr r \<and> silhouette r = Val t \<longrightarrow>
                    t \<le> s \<and> (kk < optimal_k res \<longrightarrow> t < s))"
    using row [OF s(1)] okv s(2) os oc od best by auto
  have part4: "optimal_k res' = optimal_k res"
    if other: "optimize_clustering (lib\<lparr>calinski_harabasz_score := c', davies_bouldin_score := d'\<rparr>) X
                 = Inr res'" for c' d' res'
  proof -
    let ?lib = "lib\<lparr>calinski_harabasz_score := c', davies_bouldin_score := d'\<rparr>"
    from optimize_clustering_Inr [OF other]
    obtain rs' idx' where rs': "metrics_loop ?lib X CLUSTERING_K_RANGE = Inr rs'"
      and idx': "idxmax (map silhouette rs') = Inr idx'"
      and ok': "optimal_k res' = k (rs' ! idx')"
      by blast
    from metrics_loop_rows [OF rs']
    have len': "length rs' = 9"
      and row': "\<And>i. i < 9 \<Longrightarrow> cluster_metrics ?lib X (i + 2) = Inr (rs' ! i)"
      by (auto simp: K_RANGE_length K_RANGE_nth)
    have "map silhouette rs' = map silhouette rs"
    proof (intro nth_equalityI)
      show "length (map silhouette rs') = length (map silhouette rs)" using len len' by simp
    next
      fix i assume "i < length (map silhouette rs')"
      with len' have i: "i < 9" by simp
      from cluster_metrics_other_indices [OF row [OF i] row' [OF i]] i len len'
      show "map silhouette rs' ! i = map silhouette rs ! i" by simp
    qed
    with idx idx' have same: "idx' = idx" by simp
    from cluster_metrics_k [OF row' [OF s(1)]] same ok' have "optimal_k res' = idx + 2" by simp
    with okv show ?thesis by simp
  qed
  from part1 part2 part3 part4 show ?thesis by blast
qed

lemma demo_cluster_metrics:
  "cluster_metrics demo_cluster_lib () kk =
     Inr \<lparr>k = kk, silhouette = Val (if kk = 3 \<or> kk = 5 then 0.7 else 0.2),
          calinski_harabasz = Val (real kk), davies_bouldin = Val 1, labels = kk,
          inertia = Val (1 / real kk)\<rparr>"
  by (simp add: cluster_metrics_def demo_cluster_lib_def)

theorem optimize_clustering_first_max_silhouette_witness:
  "\<exists>res. optimize_clustering demo_cluster_lib () = Inr res \<and> optimal_k res = 3
      \<and> optimal_silhouette res = Val 0.7"
proof -
  have "\<exists>res. optimize_clustering demo_cluster_lib () = Inr res"
    by (simp add: optimize_clustering_def K_RANGE demo_cluster_metrics idxmax_def)
  then obtain res where res: "optimize_clustering demo_cluster_lib () = Inr res" by blast
  from optimize_clustering_first_max_silhouette [OF res]
  obtain row s where range: "optimal_k res \<in> {2..10}"
    and row: "cluster_metrics demo_cluster_lib () (optimal_k res) = Inr row" "silhouette row = Val s"
      "optimal_silhouette res = Val s"
    and best: "\<forall>kk \<in> {2..10}. \<forall>r t. cluster_metrics demo_cluster_lib () kk = Inr r \<and> silhouette r = Val t \<longrightarrow>
                    t \<le> s \<and> (kk < optimal_k res \<longrightarrow> t < s)"
    by blast
  from row(1,2) have s: "s = (if optimal_k res = 3 \<or> optimal_k res = 5 then 0.7 else 0.2)"
    by (auto simp: demo_cluster_metrics)
  have three: "(3::nat) \<in> {2..10}" by simp
  from best [rule_format, OF three, of _ "0.7"]
  have b3: "0.7 \<le> s \<and> (3 < optimal_k res \<longrightarrow> 0.7 < s)"
    by (simp add: demo_cluster_metrics)
  from b3 s have "optimal_k res = 3 \<or> optimal_k res = 5" by (auto split: if_splits)
  moreover from b3 s have "\<not> 3 < optimal_k res" by (auto split: if_splits)
  ultimately have "optimal_k res = 3" by auto
  with res row(3) s show ?thesis by auto
qed

section \<open>Week-to-column matching\<close>

lemma str_nat_weeks:
  "str_nat 1 = ''1''" "str_nat 2 = ''2''" "str_nat 3 = ''3''" "str_nat 4 = ''4''"
  "str_nat 5 = ''5''" "str_nat 6 = ''6''" "str_nat 7 = ''7''" "str_nat 8 = ''8''"
  "str_nat 9 = ''9''" "str_nat 10 = ''10''" "str_nat 11 = ''11''" "str_nat 12 = ''12''"
  "str_nat (Suc 0) = ''1''"
  by (simp_all add: str_nat.simps digit_char_def)

lemma LAG_RANGE_list: "LAG_RANGE = [1, 2, 3, 4, 5, 6, 7, 8, 9, 10, 11, 12]"
  by (simp add: LAG_RANGE_def upt_rec)

lemma week_cases:
  "week \<in> set LAG_RANGE \<longleftrightarrow> week = 1 \<or> week = 2 \<or> week = 3 \<or> week = 4 \<or> week = 5 \<or> week = 6
     \<or> week = 7 \<or> week = 8 \<or> week = 9 \<or> week = 10 \<or> week = 11 \<or> week = 12"
  by (simp add: LAG_RANGE_list)

lemma str_nat_week_digits:
  assumes "week \<in> set LAG_RANGE"
  shows "str_nat week \<noteq> [] \<and> (\<forall>c \<in> set (str_nat week). is_digit c)"
  using assms unfolding week_cases
  by (elim disjE) (simp_all add: str_nat_weeks is_digit_def)

lemma no_earlier_week_table:
  "\<forall>week \<in> set [1, 2, 3, 4, 5, 6, 7, 8, 9, 10, 11, 12 :: nat].
     \<forall>j \<in> set [1, 2, 3, 4, 5, 6, 7, 8, 9, 10, 11, 12 :: nat].
       j < week \<longrightarrow> \<not> sublist (str_nat week) (str_nat j)"
  by (simp add: str_nat_weeks sublist_code prefix_code)

lemma no_earlier_week_contains:
  assumes "week \<in> set LAG_RANGE" "j \<in> set LAG_RANGE" "j < week"
  shows "\<not> sublist (str_nat week) (str_nat j)"
  using assms no_earlier_week_table unfolding LAG_RANGE_list by blast

lemma sublist_digits_after_text:
  assumes ne: "p \<noteq> []"
    and digits: "\<forall>c \<in> set p. is_digit c"
    and plain: "\<forall>c \<in> set a. \<not> is_digit c"
  shows "sublist p (a @ b) \<longleftrightarrow> sublist p b"
proof
  assume "sublist p (a @ b)"
  then consider "sublist p a" | "sublist p b"
    | xs1 xs2 where "p = xs1 @ xs2" "suffix xs1 a" "prefix xs2 b"
    unfolding sublist_append by blast
  then show "sublist p b"
  proof cases
    case 1
    then have "set p \<subseteq> set a" by (rule set_mono_sublist)
    moreover from ne obtain c where "c \<in> set p" by (cases p) auto
    ultimately show ?thesis using digits plain by blast
  next
    case 2
    then show ?thesis .
  next
    case 3
    from 3(2) have "set xs1 \<subseteq> set a" by (rule set_mono_suffix)
    moreover from 3(1) have "set xs1 \<subseteq> set p" by auto
    ultimately have "xs1 = []" using digits plain by (cases xs1) auto
    with 3(1,3) show ?thesis by (auto simp: prefix_imp_sublist)
  qed
next
  assume "sublist p b"
  then show "sublist p (a @ b)" by (simp add: sublist_append)
qed

lemma LAG_VARIABLES_no_digit:
  assumes "var \<in> set LAG_VARIABLES"
  shows "\<forall>c \<in> set var. \<not> is_digit c"
  using assms by (auto simp: LAG_VARIABLES_def is_digit_def)

lemma offset_column_shape:
  assumes "offset_column df var lag_type week = Some c"
  shows "\<exists>sep. c = (var @ sep) @ str_nat week \<and> (\<forall>ch \<in> set sep. \<not> is_digit ch)"
proof -
  have seps: "\<forall>ch \<in> set ''_lag_''. \<not> is_digit ch" "\<forall>ch \<in> set ''_lag''. \<not> is_digit ch"
    "\<forall>ch \<in> set ''_lag_rolling''. \<not> is_digit ch" "\<forall>ch \<in> set ''_lag_rollingmean''. \<not> is_digit ch"
    "\<forall>ch \<in> set ''_lag_rollingmedian''. \<not> is_digit ch" "\<forall>ch \<in> set ''_lag_rollingsum''. \<not> is_digit ch"
    by (simp_all add: is_digit_def)
  from assms consider "c = (var @ ''_lag_'') @ str_nat week" | "c = (var @ ''_lag'') @ str_nat week"
    | "c = (var @ ''_lag_rolling'') @ str_nat week" | "c = (var @ ''_lag_rollingmean'') @ str_nat week"
    | "c = (var @ ''_lag_rollingmedian'') @ str_nat week" | "c = (var @ ''_lag_rollingsum'') @ str_nat week"
    by (auto simp: offset_column_def simple_lag_column_def rolling_lag_column_def Let_def
        split: if_splits)
  then show ?thesis using seps by cases blast+
qed

lemma offset_column_contains:
  assumes var: "var \<in> set LAG_VARIABLES"
    and week: "week \<in> set LAG_RANGE"
    and col: "offset_column df var lag_type j = Some c"
  shows "sublist (str_nat week) c \<longleftrightarrow> sublist (str_nat week) (str_nat j)"
proof -
  from offset_column_shape [OF col] obtain sep where
    c: "c = (var @ sep) @ str_nat j" and sep: "\<forall>ch \<in> set sep. \<not> is_digit ch" by blast
  from LAG_VARIABLES_no_digit [OF var] sep have "\<forall>ch \<in> set (var @ sep). \<not> is_digit ch" by auto
  with str_nat_week_digits [OF week] show ?thesis
    unfolding c by (intro sublist_digits_after_text) auto
qed

lemma get_lag_features_offset_columns:
  "get_lag_features df var lag_type = List.map_filter (offset_column df var lag_type) LAG_RANGE"
proof -
  have "offset_column df var lag_type = simple_lag_column (columns df) var" if "lag_type = ''simple''"
    using that by (auto simp: offset_column_def)
  moreover have "offset_column df var lag_type = rolling_lag_column (columns df) var"
    if "lag_type \<noteq> ''simple''" "lag_type = ''rolling''"
    using that by (auto simp: offset_column_def)
  moreover have "offset_column df var lag_type = (\<lambda>w. None)"
    if "lag_type \<noteq> ''simple''" "lag_type \<noteq> ''rolling''"
    using that by (auto simp: offset_column_def)
  ultimately show ?thesis
    by (cases "lag_type = ''simple''"; cases "lag_type = ''rolling''")
       (simp_all add: get_lag_features_def map_filter_def)
qed

lemma map_filter_append: "List.map_filter g (xs @ ys) = List.map_filter g xs @ List.map_filter g ys"
  by (simp add: map_filter_def)

lemma filter_map_filter_none:
  assumes "\<forall>x \<in> set xs. \<forall>c. g x = Some c \<longrightarrow> \<not> P c"
  shows "filter P (List.map_filter g xs) = []"
  using assms by (induction xs) (auto simp: map_filter_simps split: option.splits)

lemma LAG_RANGE_split:
  assumes "week \<in> set LAG_RANGE"
  shows "LAG_RANGE = [1..<week] @ week # [Suc week..<13]"
proof -
  from assms have "1 \<le> week" "week < 13" by (auto simp: LAG_RANGE_def)
  then have "[1..<13] = [1..<week] @ [week..<13]"
    using upt_add_eq_append [of 1 week "13 - week"] by simp
  moreover from \<open>week < 13\<close> have "[week..<13] = week # [Suc week..<13]" by (rule upt_conv_Cons)
  ultimately show ?thesis by (simp add: LAG_RANGE_def)
qed

lemma week_feature_offset_column:
  assumes var: "var \<in> set LAG_VARIABLES"
    and week: "week \<in> set LAG_RANGE"
    and col: "offset_column df var lag_type week = Some c"
  shows "week_feature (get_lag_features df var lag_type) week = Some c"
proof -
  let ?g = "offset_column df var lag_type"
  have before: "filter (sublist (str_nat week)) (List.map_filter ?g [Suc 0..<week]) = []"
  proof (rule filter_map_filter_none, intro ballI allI impI)
    fix j cj assume j: "j \<in> set [Suc 0..<week]" and cj: "?g j = Some cj"
    from j week have "j \<in> set LAG_RANGE" "j < week" by (auto simp: LAG_RANGE_def)
    with no_earlier_week_contains [OF week] offset_column_contains [OF var week cj]
    show "\<not> sublist (str_nat week) cj" by blast
  qed
  have here: "sublist (str_nat week) c"
    using offset_column_contains [OF var week col] by simp
  show ?thesis
    unfolding week_feature_def get_lag_features_offset_columns LAG_RANGE_split [OF week]
    by (simp add: map_filter_append before map_filter_simps col here)
qed

lemma week_key_table:
  "\<forall>w \<in> set [1, 2, 3, 4, 5, 6, 7, 8, 9, 10, 11, 12 :: nat].
     \<forall>w' \<in> set [1, 2, 3, 4, 5, 6, 7, 8, 9, 10, 11, 12 :: nat].
       (str_nat w = str_nat w' \<longrightarrow> w = w') \<and> str_nat w \<noteq> str_nat w' @ ''_p''"
  by (simp add: str_nat_weeks)

lemma week_keys_disjoint:
  assumes "w \<in> set LAG_RANGE" "w' \<in> set LAG_RANGE" "w \<noteq> w'" "key \<in> week_keys w"
  shows "key \<notin> week_keys w'"
proof -
  from assms(1,2) week_key_table
  have "(str_nat w = str_nat w' \<longrightarrow> w = w') \<and> str_nat w \<noteq> str_nat w' @ ''_p''"
    and "str_nat w' \<noteq> str_nat w @ ''_p''"
    unfolding LAG_RANGE_list by blast+
  with assms(3,4) show ?thesis by (auto simp: week_keys_def)
qed

lemma lag_row_loop_keeps:
  assumes "lag_row_loop lib df target feats weeks row = Inr out"
    and "\<forall>w \<in> set weeks. key \<notin> week_keys w"
  shows "map_of out key = map_of row key"
  using assms
proof (induction weeks arbitrary: row)
  case Nil
  then show ?case by simp
next
  case (Cons w weeks)
  from Cons.prems(1) obtain corr pval where
    run: "lag_row_loop lib df target feats weeks
            (AList.update (''lag_'' @ str_nat w @ ''_p'') pval
               (AList.update (''lag_'' @ str_nat w) corr row)) = Inr out"
    by (auto split: sum.splits)
  from Cons.prems(2) have "key \<noteq> ''lag_'' @ str_nat w" "key \<noteq> ''lag_'' @ str_nat w @ ''_p''"
    and rest: "\<forall>w \<in> set weeks. key \<notin> week_keys w"
    by (auto simp: week_keys_def)
  with Cons.IH [OF run rest] show ?case by (simp add: update_conv')
qed

lemma lag_row_loop_lookup:
  assumes "lag_row_loop lib df target feats weeks row = Inr out"
    and "week \<in> set weeks" "set weeks \<subseteq> set LAG_RANGE"
  shows "\<exists>corr pval. week_correlation lib df target feats week = Inr (corr, pval)
           \<and> map_of out (''lag_'' @ str_nat week) = Some corr
           \<and> map_of out (''lag_'' @ str_nat week @ ''_p'') = Some pval"
  using assms
proof (induction weeks arbitrary: row)
  case Nil
  then show ?case by simp
next
  case (Cons w weeks)
  from Cons.prems(1) obtain corr pval where
    wc: "week_correlation lib df target feats w = Inr (corr, pval)" and
    run: "lag_row_loop lib df target feats weeks
            (AList.update (''lag_'' @ str_nat w @ ''_p'') pval
               (AList.update (''lag_'' @ str_nat w) corr row)) = Inr out"
    by (auto split: sum.splits)
  from Cons.prems(3) have sub: "set weeks \<subseteq> set LAG_RANGE" and w: "w \<in> set LAG_RANGE" by auto
  show ?case
  proof (cases "week \<in> set weeks")
    case True
    from Cons.IH [OF run True sub] show ?thesis .
  next
    case False
    with Cons.prems(2) have ww: "w = week" by simp
    have "\<forall>w' \<in> set weeks. key \<notin> week_keys w'" if "key \<in> week_keys week" for key
      using that False sub w ww week_keys_disjoint by blast
    then have keep: "map_of out key =
        map_of (AList.update (''lag_'' @ str_nat w @ ''_p'') pval
                 (AList.update (''lag_'' @ str_nat w) corr row)) key"
      if "key \<in> week_keys week" for key
      using lag_row_loop_keeps [OF run] that by blast
    have "map_of out (''lag_'' @ str_nat week) = Some corr"
      "map_of out (''lag_'' @ str_nat week @ ''_p'') = Some pval"
      using keep ww by (simp_all add: week_keys_def update_conv')
    with wc ww show ?thesis by auto
  qed
qed

lemma analyze_lag_loop_rows:
  assumes "analyze_lag_loop lib df target lag_type vars = Inr tbl" "row \<in> set tbl"
  shows "variable row \<in> set vars
       \<and> lag_row_loop lib df target (get_lag_features df (variable row) lag_type) LAG_RANGE []
           = Inr (cells row)"
  using assms
proof (induction vars arbitrary: tbl)
  case Nil
  then show ?case by simp
next
  case (Cons v vars)
  show ?case
  proof (cases "length (get_lag_features df v lag_type) = 0")
    case True
    with Cons.prems(1) have "analyze_lag_loop lib df target lag_type vars = Inr tbl"
      by (simp add: Let_def)
    from Cons.IH [OF this Cons.prems(2)] show ?thesis by simp
  next
    case False
    with Cons.prems(1) obtain cs rest where
      p: "lag_row_loop lib df target (get_lag_features df v lag_type) LAG_RANGE [] = Inr cs"
         "analyze_lag_loop lib df target lag_type vars = Inr rest"
         "tbl = \<lparr>variable = v, cells = cs\<rparr> # rest"
      by (auto simp: Let_def split: sum.splits)
    from Cons.prems(2) p(3) consider "row = \<lparr>variable = v, cells = cs\<rparr>" | "row \<in> set rest" by auto
    then show ?thesis
    proof cases
      case 1
      with p(1) show ?thesis by simp
    next
      case 2
      from Cons.IH [OF p(2) 2] show ?thesis by simp
    qed
  qed
qed

lemma offset_column_name:
  assumes "offset_column df var lag_type week = Some c"
  shows "c \<in> set (columns df)
       \<and> (\<exists>sep \<in> {''_lag_'', ''_lag'', ''_lag_rolling'', ''_lag_rollingmean'',
                    ''_lag_rollingmedian'', ''_lag_rollingsum''}. c = var @ sep @ str_nat week)"
  using assms
  by (auto simp: offset_column_def simple_lag_column_def rolling_lag_column_def Let_def
      split: if_splits)

lemma analyze_lag_loop_has_row:
  assumes "analyze_lag_loop lib df target lag_type vars = Inr tbl"
    and "var \<in> set vars" "get_lag_features df var lag_type \<noteq> []"
  shows "\<exists>row \<in> set tbl. variable row = var"
  using assms
proof (induction vars arbitrary: tbl)
  case Nil
  then show ?case by simp
next
  case (Cons v vars)
  show ?case
  proof (cases "length (get_lag_features df v lag_type) = 0")
    case True
    with Cons.prems(1) have run: "analyze_lag_loop lib df target lag_type vars = Inr tbl"
      by (simp add: Let_def)
    from True Cons.prems(2,3) have "var \<in> set vars" by auto
    from Cons.IH [OF run this Cons.prems(3)] show ?thesis .
  next
    case False
    with Cons.prems(1) obtain cs rest where
      p: "analyze_lag_loop lib df target lag_type vars = Inr rest"
         "tbl = \<lparr>variable = v, cells = cs\<rparr> # rest"
      by (auto simp: Let_def split: sum.splits)
    show ?thesis
    proof (cases "var = v")
      case True
      with p(2) show ?thesis by simp
    next
      case False
      with Cons.prems(2) have "var \<in> set vars" by simp
      from Cons.IH [OF p(1) this Cons.prems(3)] p(2) show ?thesis by auto
    qed
  qed
qed

lemma week_feature_nonempty: "week_feature fs week = Some c \<Longrightarrow> fs \<noteq> []"
  by (auto simp: week_feature_def)

text \<open>
  Claim C10.  For a tracked variable and a week between 1 and 12 whose lag column is in
  the table: that column is the variable's name, one of the recognised separators and the
  decimal week; it is the first of the variable's lag columns whose name contains the
  digits of the week; and every correlation table the analysis returns has a row for the
  variable, whose cells \<open>lag_w\<close> and \<open>lag_w_p\<close> are the correlation of that column with
  the outcome.
\<close>

theorem lag_table_entry_from_offset_column:
  assumes var: "var \<in> set LAG_VARIABLES"
    and week: "week \<in> set LAG_RANGE"
    and col: "offset_column df var lag_type week = Some c"
  shows "c \<in> set (columns df)
       \<and> (\<exists>sep \<in> {''_lag_'', ''_lag'', ''_lag_rolling'', ''_lag_rollingmean'',
                    ''_lag_rollingmedian'', ''_lag_rollingsum''}. c = var @ sep @ str_nat week)
       \<and> week_feature (get_lag_features df var lag_type) week = Some c
       \<and> (\<forall>lib target tbl.
            analyze_lag_features lib df target lag_type = Inr tbl
            \<longrightarrow> (\<exists>row \<in> set tbl. variable row = var)
              \<and> (\<forall>row \<in> set tbl. variable row = var \<longrightarrow>
                    (\<exists>corr pval. feature_correlation lib df c target = Inr (corr, pval)
                       \<and> map_of (cells row) (''lag_'' @ str_nat week) = Some corr
                       \<and> map_of (cells row) (''lag_'' @ str_nat week @ ''_p'') = Some pval)))"
proof -
  note feat = week_feature_offset_column [OF var week col]
  have entry: "\<exists>corr pval. feature_correlation lib df c target = Inr (corr, pval)
                   \<and> map_of (cells row) (''lag_'' @ str_nat week) = Some corr
                   \<and> map_of (cells row) (''lag_'' @ str_nat week @ ''_p'') = Some pval"
    if run: "analyze_lag_features lib df target lag_type = Inr tbl" and row: "row \<in> set tbl"
      and v: "variable row = var" for lib target tbl row
  proof -
    from analyze_lag_loop_rows [OF run [unfolded analyze_lag_features_def] row] v
    have "lag_row_loop lib df target (get_lag_features df var lag_type) LAG_RANGE [] = Inr (cells row)"
      by simp
    from lag_row_loop_lookup [OF this week subset_refl]
    show ?thesis by (simp add: week_correlation_def feat)
  qed
  have has: "\<exists>row \<in> set tbl. variable row = var"
    if run: "analyze_lag_features lib df target lag_type = Inr tbl" for lib target tbl
    using analyze_lag_loop_has_row [OF run [unfolded analyze_lag_features_def] var
      week_feature_nonempty [OF feat]] .
  have "\<forall>lib target tbl.
            analyze_lag_features lib df target lag_type = Inr tbl
            \<longrightarrow> (\<exists>row \<in> set tbl. variable row = var)
              \<and> (\<forall>row \<in> set tbl. variable row = var \<longrightarrow>
                    (\<exists>corr pval. feature_correlation lib df c target = Inr (corr, pval)
                       \<and> map_of (cells row) (''lag_'' @ str_nat week) = Some corr
                       \<and> map_of (cells row) (''lag_'' @ str_nat week @ ''_p'') = Some pval))"
  proof (intro allI impI conjI ballI)
    fix lib target tbl
    assume run: "analyze_lag_features lib df target lag_type = Inr tbl"
    show "\<exists>row \<in> set tbl. variable row = var" using has [OF run] .
    fix row assume "row \<in> set tbl" "variable row = var"
    with run show "\<exists>corr pval. feature_correlation lib df c target = Inr (corr, pval)
                       \<and> map_of (cells row) (''lag_'' @ str_nat week) = Some corr
                       \<and> map_of (cells row) (''lag_'' @ str_nat week @ ''_p'') = Some pval"
      by (rule entry)
  qed
  with offset_column_name [OF col] feat show ?thesis by blast
qed

theorem lag_table_entry_from_offset_column_witness:
  "''R'' \<in> set LAG_VARIABLES \<and> 1 \<in> set LAG_RANGE
   \<and> offset_column demo_df ''R'' ''simple'' 1 = Some ''R_lag_1''
   \<and> week_feature (get_lag_features demo_df ''R'' ''simple'') 1 = Some ''R_lag_1''
   \<and> (\<exists>tbl. analyze_lag_features demo_stats_lib demo_df ''pos'' ''simple'' = Inr tbl
         \<and> (\<exists>row \<in> set tbl. variable row = ''R'' \<and> map_of (cells row) ''lag_1'' = Some (Val 1)))"
proof -
  have var: "''R'' \<in> set LAG_VARIABLES" by (simp add: LAG_VARIABLES_def)
  have week: "1 \<in> set LAG_RANGE" by (simp add: LAG_RANGE_def)
  have col: "offset_column demo_df ''R'' ''simple'' 1 = Some ''R_lag_1''"
    by (simp add: offset_column_def simple_lag_column_def demo_df_def str_nat_weeks)
  have corr: "feature_correlation demo_stats_lib demo_df ''R_lag_1'' ''pos'' = Inr (Val 1, Val 0.01)"
    by (simp add: feature_correlation_def demo_df_def demo_stats_lib_def valid_mask_def
        loc_mask_def row_of_def notna_def)
  have corr10: "feature_correlation demo_stats_lib demo_df ''R_lag_10'' ''pos'' = Inr (Val 2, Val 0.01)"
    by (simp add: feature_correlation_def demo_df_def demo_stats_lib_def valid_mask_def
        loc_mask_def row_of_def notna_def)
  have feats: "get_lag_features demo_df v ''simple'' = (if v = ''R'' then [''R_lag_1'', ''R_lag_10''] else [])"
    if "v \<in> set LAG_VARIABLES" for v
    using that
    by (auto simp: LAG_VARIABLES_def get_lag_features_def simple_lag_column_def demo_df_def
        LAG_RANGE_list map_filter_simps str_nat_weeks)
  have wf: "week_feature [''R_lag_1'', ''R_lag_10''] w =
              (if w = 1 then Some ''R_lag_1'' else if w = 10 then Some ''R_lag_10'' else None)"
    if "w \<in> set LAG_RANGE" for w
    using that unfolding week_cases
    by (elim disjE) (simp_all add: week_feature_def str_nat_weeks sublist_code prefix_code)
  have "\<exists>cs. lag_row_loop demo_stats_lib demo_df ''pos'' [''R_lag_1'', ''R_lag_10''] LAG_RANGE [] = Inr cs"
    by (simp add: LAG_RANGE_list week_correlation_def wf [unfolded LAG_RANGE_list] corr corr10)
  then have "\<exists>tbl. analyze_lag_features demo_stats_lib demo_df ''pos'' ''simple'' = Inr tbl"
    by (auto simp: analyze_lag_features_def LAG_VARIABLES_def feats [unfolded LAG_VARIABLES_def])
  then obtain tbl where run: "analyze_lag_features demo_stats_lib demo_df ''pos'' ''simple'' = Inr tbl"
    by blast
  note inst = lag_table_entry_from_offset_column [OF var week col]
  from inst have feat: "week_feature (get_lag_features demo_df ''R'' ''simple'') 1 = Some ''R_lag_1''"
    by blast
  from inst run obtain row where row: "row \<in> set tbl" "variable row = ''R''"
    and all: "\<forall>row \<in> set tbl. variable row = ''R'' \<longrightarrow>
                (\<exists>corr pval. feature_correlation demo_stats_lib demo_df ''R_lag_1'' ''pos'' = Inr (corr, pval)
                   \<and> map_of (cells row) (''lag_'' @ str_nat 1) = Some corr
                   \<and> map_of (cells row) (''lag_'' @ str_nat 1 @ ''_p'') = Some pval)"
    by blast
  from all row obtain c p where
    cp: "feature_correlation demo_stats_lib demo_df ''R_lag_1'' ''pos'' = Inr (c, p)"
      "map_of (cells row) (''lag_'' @ str_nat 1) = Some c"
    by blast
  from cp(1) corr have "c = Val 1" by simp
  with cp(2) have "map_of (cells row) ''lag_1'' = Some (Val 1)" by (simp add: str_nat_weeks)
  with row have "\<exists>row \<in> set tbl. variable row = ''R'' \<and> map_of (cells row) ''lag_1'' = Some (Val 1)"
    by blast
  with var week col run feat show ?thesis by blast
qed

text \<open>
  The column of the week has to be there: with the column of offset 10 in the table and
  the column of offset 1 missing, week 1 picks the column of offset 10.
\<close>

lemma week_feature_without_offset_column:
  "week_feature (get_lag_features \<lparr>columns = [''R_lag_10'', ''pos''], rows = []\<rparr> ''R'' ''simple'') 1
     = Some ''R_lag_10''"
  by (simp add: week_feature_def get_lag_features_def simple_lag_column_def LAG_RANGE_list
      map_filter_simps str_nat_weeks sublist_code prefix_code)

section \<open>Optimal lag of a variable\<close>

lemma LAG_RANGE_length: "length LAG_RANGE = 12"
  by (simp add: LAG_RANGE_def)

lemma LAG_RANGE_nth: "i < 12 \<Longrightarrow> LAG_RANGE ! i = i + 1"
  using nth_upt [of 1 i 13] by (simp add: LAG_RANGE_def)

lemma nanargmax_idxmax: "nanargmax xs = idxmax xs"
  by (simp add: nanargmax_def idxmax_def)

lemma all_isnan_abs: "list_all isnan (map num_abs xs) \<longleftrightarrow> (\<forall>c \<in> set xs. c = NaN)"
proof (induction xs)
  case Nil
  then show ?case by simp
next
  case (Cons x xs)
  then show ?case by (cases x) auto
qed

lemma finite_values: "finite {w. Val w \<in> set xs}"
proof -
  have "{w. Val w \<in> set xs} = Val -` set xs" by auto
  moreover have "finite (Val -` set xs)"
    by (rule finite_vimageI) (simp_all add: inj_on_def)
  ultimately show ?thesis by simp
qed

lemma optimal_lag_all_nan:
  assumes "\<forall>c \<in> set lag_corrs. c = NaN"
  shows "optimal_lag lag_corrs = Inr (NaN, NaN)"
proof -
  from assms have "list_all isnan (map num_abs lag_corrs)"
    using all_isnan_abs [of lag_corrs] by blast
  then show ?thesis by (simp add: optimal_lag_def)
qed

lemma optimal_lag_some:
  assumes len: "length lag_corrs = length LAG_RANGE"
    and some: "\<not> (\<forall>c \<in> set lag_corrs. c = NaN)"
  shows "\<exists>i v. i < length lag_corrs
           \<and> optimal_lag lag_corrs = Inr (Val (real (LAG_RANGE ! i)), Val v)
           \<and> lag_corrs ! i = Val v
           \<and> \<bar>v\<bar> = Max ((\<lambda>w. \<bar>w\<bar>) ` {w. Val w \<in> set lag_corrs})
           \<and> (\<forall>j < i. \<forall>w. lag_corrs ! j = Val w \<longrightarrow> \<bar>w\<bar> < \<bar>v\<bar>)"
proof -
  let ?abs = "map num_abs lag_corrs"
  from some have notall: "\<not> list_all isnan ?abs"
    using all_isnan_abs [of lag_corrs] by blast
  then obtain m where m: "nanargmax ?abs = Inr m"
    using idxmax_Inl [of ?abs] by (cases "nanargmax ?abs") (auto simp: nanargmax_idxmax)
  from idxmax_Inr [OF m [unfolded nanargmax_idxmax]]
  obtain a where a: "m < length lag_corrs" "?abs ! m = Val a"
    "\<forall>j < length lag_corrs. \<forall>w. ?abs ! j = Val w \<longrightarrow> w \<le> a"
    "\<forall>j < m. \<forall>w. ?abs ! j = Val w \<longrightarrow> w < a"
    by auto
  from a(1,2) obtain v where v: "lag_corrs ! m = Val v" "a = \<bar>v\<bar>"
    by (cases "lag_corrs ! m") auto
  have res: "optimal_lag lag_corrs = Inr (Val (real (LAG_RANGE ! m)), Val v)"
    using notall m a(1) len v(1) by (simp add: optimal_lag_def)
  have upper: "\<bar>w\<bar> \<le> \<bar>v\<bar>" if "Val w \<in> set lag_corrs" for w
  proof -
    from that obtain j where j: "j < length lag_corrs" "lag_corrs ! j = Val w"
      by (auto simp: in_set_conv_nth)
    then have "?abs ! j = Val \<bar>w\<bar>" by simp
    with a(3) j(1) v(2) show ?thesis by blast
  qed
  have earlier: "\<bar>w\<bar> < \<bar>v\<bar>" if "j < m" "lag_corrs ! j = Val w" for j w
  proof -
    from that a(1) have "?abs ! j = Val \<bar>w\<bar>" by simp
    with a(4) that(1) v(2) show ?thesis by blast
  qed
  have "Val v \<in> set lag_corrs" using a(1) v(1) by (metis nth_mem)
  then have "\<bar>v\<bar> \<in> (\<lambda>w. \<bar>w\<bar>) ` {w. Val w \<in> set lag_corrs}" by blast
  moreover have "\<forall>y \<in> (\<lambda>w. \<bar>w\<bar>) ` {w. Val w \<in> set lag_corrs}. y \<le> \<bar>v\<bar>"
    using upper by blast
  ultimately have mx: "Max ((\<lambda>w. \<bar>w\<bar>) ` {w. Val w \<in> set lag_corrs}) = \<bar>v\<bar>"
    using finite_values [of lag_corrs] by (intro Max_eqI) auto
  from a(1) res v(1) mx earlier show ?thesis by auto
qed

lemma optimal_lag_optimum:
  assumes len: "length corrs = length LAG_RANGE"
    and res: "optimal_lag corrs = Inr (week, corr)"
  shows "optimum corrs week corr"
proof (cases "\<forall>c \<in> set corrs. c = NaN")
  case True
  with optimal_lag_all_nan [OF True] res show ?thesis by (simp add: optimum_def)
next
  case False
  from optimal_lag_some [OF len False] res False show ?thesis
    unfolding optimum_def by auto
qed

lemma row_values_length:
  "row_values row cs = Inr vs \<Longrightarrow> length vs = length cs"
proof (induction cs arbitrary: vs)
  case Nil
  then show ?case by simp
next
  case (Cons c cs)
  then show ?case by (auto split: option.splits sum.splits)
qed

lemma lag_cols_length: "length lag_cols = length LAG_RANGE"
  by (simp add: lag_cols_def)

lemma find_optimal_lags_rows:
  assumes "find_optimal_lags simple rolling = Inr out"
  shows "length out = length simple \<and>
         (\<forall>i < length simple.
            opt_variable (out ! i) = variable (simple ! i)
            \<and> (\<exists>cs. row_values (cells (simple ! i)) lag_cols = Inr cs
                  \<and> length cs = length LAG_RANGE
                  \<and> optimal_lag cs = Inr (optimal_lag_simple_weeks (out ! i),
                                          optimal_lag_simple_correlation (out ! i)))
            \<and> optimal_rolling rolling (variable (simple ! i))
                 = Inr (optimal_lag_rolling_weeks (out ! i), optimal_lag_rolling_correlation (out ! i)))"
  using assms
proof (induction simple arbitrary: out)
  case Nil
  then show ?case by simp
next
  case (Cons row simple)
  from Cons.prems obtain cs w c rw rc rest where
    p: "row_values (cells row) lag_cols = Inr cs" "optimal_lag cs = Inr (w, c)"
       "optimal_rolling rolling (variable row) = Inr (rw, rc)"
       "find_optimal_lags simple rolling = Inr rest"
       "out = \<lparr>opt_variable = variable row, optimal_lag_simple_weeks = w,
               optimal_lag_simple_correlation = c, optimal_lag_rolling_weeks = rw,
               optimal_lag_rolling_correlation = rc\<rparr> # rest"
    by (auto split: sum.splits prod.splits)
  from row_values_length [OF p(1)] have l: "length cs = length LAG_RANGE"
    by (simp add: lag_cols_length)
  from Cons.IH [OF p(4)] p(1,2,3,5) l show ?case
    by (auto simp: nth_Cons split: nat.splits)
qed

lemma optimal_rolling_optimum:
  assumes "optimal_rolling lag_rolling_df var = Inr (week, corr)"
  shows "case filter (\<lambda>r. variable r = var) lag_rolling_df of
           [] \<Rightarrow> week = NaN \<and> corr = NaN
         | rolling_row # _ \<Rightarrow>
             \<exists>corrs. row_values (cells rolling_row) lag_cols = Inr corrs \<and> optimum corrs week corr"
proof (cases "filter (\<lambda>r. variable r = var) lag_rolling_df")
  case Nil
  with assms show ?thesis by (auto simp: optimal_rolling_def split: if_splits)
next
  case (Cons rr rest)
  with assms obtain corrs where c: "row_values (cells rr) lag_cols = Inr corrs"
    "optimal_lag corrs = Inr (week, corr)"
    by (auto simp: optimal_rolling_def split: if_splits sum.splits)
  from row_values_length [OF c(1)] have "length corrs = length LAG_RANGE"
    by (simp add: lag_cols_length)
  from optimal_lag_optimum [OF this c(2)] c(1) Cons show ?thesis by auto
qed

text \<open>
  Claim C4.  Whenever \<open>_find_optimal_lags\<close> returns, it reports one row per row of the
  simple-lag table, for the same variable.  For each family (the simple lags from that
  row, the rolling windows from the first row of the rolling table with the same
  variable), with the twelve per-offset correlations of the variable: when all are NaN the
  optimal week and the optimal correlation are both NaN; otherwise the optimal correlation
  is the correlation of the optimal week, it is a number whose absolute value is the
  maximum of the absolute values of the correlations that are numbers, and no earlier
  offset reaches that absolute value.  A variable without a row in the rolling table gets
  NaN for both rolling values.
\<close>

theorem find_optimal_lags_maximal_absolute_correlation:
  assumes run: "find_optimal_lags lag_simple_df lag_rolling_df = Inr out"
    and i: "i < length lag_simple_df"
  shows "length out = length lag_simple_df
       \<and> opt_variable (out ! i) = variable (lag_simple_df ! i)
       \<and> (\<exists>corrs. row_values (cells (lag_simple_df ! i)) lag_cols = Inr corrs
             \<and> optimum corrs (optimal_lag_simple_weeks (out ! i))
                              (optimal_lag_simple_correlation (out ! i)))
       \<and> (case filter (\<lambda>r. variable r = variable (lag_simple_df ! i)) lag_rolling_df of
             [] \<Rightarrow> optimal_lag_rolling_weeks (out ! i) = NaN
                   \<and> optimal_lag_rolling_correlation (out ! i) = NaN
           | rolling_row # _ \<Rightarrow>
               \<exists>corrs. row_values (cells rolling_row) lag_cols = Inr corrs
                 \<and> optimum corrs (optimal_lag_rolling_weeks (out ! i))
                                  (optimal_lag_rolling_correlation (out ! i)))"
proof -
  from find_optimal_lags_rows [OF run] i
  obtain corrs where len: "length out = length lag_simple_df"
    and v: "opt_variable (out ! i) = variable (lag_simple_df ! i)"
    and c: "row_values (cells (lag_simple_df ! i)) lag_cols = Inr corrs"
       "length corrs = length LAG_RANGE"
       "optimal_lag corrs = Inr (optimal_lag_simple_weeks (out ! i),
                                 optimal_lag_simple_correlation (out ! i))"
    and r: "optimal_rolling lag_rolling_df (variable (lag_simple_df ! i))
              = Inr (optimal_lag_rolling_weeks (out ! i), optimal_lag_rolling_correlation (out ! i))"
    by blast
  from optimal_lag_optimum [OF c(2,3)] c(1)
  have simple: "\<exists>corrs. row_values (cells (lag_simple_df ! i)) lag_cols = Inr corrs
             \<and> optimum corrs (optimal_lag_simple_weeks (out ! i))
                              (optimal_lag_simple_correlation (out ! i))"
    by blast
  from len v simple optimal_rolling_optimum [OF r] show ?thesis by simp
qed

lemma lag_cols_list:
  "lag_cols = [''lag_1'', ''lag_2'', ''lag_3'', ''lag_4'', ''lag_5'', ''lag_6'', ''lag_7'',
               ''lag_8'', ''lag_9'', ''lag_10'', ''lag_11'', ''lag_12'']"
  by (simp add: lag_cols_def LAG_RANGE_list str_nat_weeks)

theorem find_optimal_lags_maximal_absolute_correlation_witness:
  "\<exists>out. find_optimal_lags demo_simple_table demo_rolling_table = Inr out
      \<and> 0 < length demo_simple_table
      \<and> optimal_lag_simple_weeks (out ! 0) = Val 2
      \<and> optimal_lag_simple_correlation (out ! 0) = Val (- 0.5)
      \<and> optimum [Val 0.1, Val (- 0.5), NaN, Val 0.5, Val 0.2, NaN, NaN, NaN, NaN, NaN, NaN, NaN]
           (Val 2) (Val (- 0.5))
      \<and> optimal_lag_rolling_weeks (out ! 0) = NaN
      \<and> optimal_lag_rolling_correlation (out ! 0) = NaN"
proof -
  let ?xs = "[Val 0.1, Val (- 0.5), NaN, Val 0.5, Val 0.2, NaN, NaN, NaN, NaN, NaN, NaN, NaN]"
  let ?ys = "[NaN, NaN, NaN, NaN, NaN, NaN, NaN, NaN, NaN, NaN, NaN, NaN]"
  have simple: "row_values (cells (demo_simple_table ! 0)) lag_cols = Inr ?xs"
    by (simp add: demo_simple_table_def demo_lag_row_def lag_cols_list)
  have rolling: "filter (\<lambda>r. variable r = variable (demo_simple_table ! 0)) demo_rolling_table
                   = [demo_lag_row ''R'' ?ys]"
    by (simp add: demo_simple_table_def demo_rolling_table_def demo_lag_row_def)
  have rvals: "row_values (cells (demo_lag_row ''R'' ?ys)) lag_cols = Inr ?ys"
    by (simp add: demo_lag_row_def lag_cols_list)
  have opt: "optimal_lag ?xs = Inr (Val 2, Val (- 0.5))"
    by (simp add: optimal_lag_def nanargmax_def LAG_RANGE_def)
  have optr: "optimal_lag ?ys = Inr (NaN, NaN)"
    by (simp add: optimal_lag_def)
  have "\<exists>out. find_optimal_lags demo_simple_table demo_rolling_table = Inr out
          \<and> optimal_lag_simple_weeks (out ! 0) = Val 2
          \<and> optimal_lag_simple_correlation (out ! 0) = Val (- 0.5)"
    using simple rolling rvals opt optr
    by (simp add: demo_simple_table_def demo_rolling_table_def optimal_rolling_def)
  then obtain out where run: "find_optimal_lags demo_simple_table demo_rolling_table = Inr out"
    and w: "optimal_lag_simple_weeks (out ! 0) = Val 2"
      "optimal_lag_simple_correlation (out ! 0) = Val (- 0.5)" by blast
  have i: "0 < length demo_simple_table" by (simp add: demo_simple_table_def)
  from find_optimal_lags_maximal_absolute_correlation [OF run i] simple rolling rvals w
  have "optimum ?xs (Val 2) (Val (- 0.5))"
    and "\<exists>corrs. Inr ?ys = Inr corrs
           \<and> optimum corrs (optimal_lag_rolling_weeks (out ! 0))
                            (optimal_lag_rolling_correlation (out ! 0))"
    by auto
  then have "optimum ?xs (Val 2) (Val (- 0.5))"
    and "optimum ?ys (optimal_lag_rolling_weeks (out ! 0)) (optimal_lag_rolling_correlation (out ! 0))"
    by auto
  then have "optimum ?xs (Val 2) (Val (- 0.5))"
    and "optimal_lag_rolling_weeks (out ! 0) = NaN \<and> optimal_lag_rolling_correlation (out ! 0) = NaN"
    by (simp_all add: optimum_def)
  with run i w show ?thesis by blast
qed

section \<open>Conditional post-hoc test\<close>

lemma cluster_outcome_loop_keeps:
  assumes "cluster_outcome_loop lib df n ts res = Inr out"
    and "\<forall>t \<in> set ts. key \<notin> target_keys t"
  shows "map_of out key = map_of res key"
  using assms
proof (induction ts arbitrary: res)
  case Nil
  then show ?case by simp
next
  case (Cons t ts)
  from Cons.prems(2) have key: "key \<noteq> t @ ''_kruskal_h''" "key \<noteq> t @ ''_kruskal_p''"
    "key \<noteq> t @ ''_dunn_pvalues''" and rest: "\<forall>t \<in> set ts. key \<notin> target_keys t"
    by (auto simp: target_keys_def)
  show ?case
  proof (cases "t \<in> set (columns df)")
    case False
    with Cons.prems(1) have "cluster_outcome_loop lib df n ts res = Inr out" by simp
    from Cons.IH [OF this rest] show ?thesis .
  next
    case True
    with Cons.prems(1) obtain h p where kw: "kruskal lib (cluster_groups df n t) = Inr (h, p)"
      by (auto split: if_splits sum.splits)
    let ?r1 = "AList.update (t @ ''_kruskal_p'') (Number p)
                 (AList.update (t @ ''_kruskal_h'') (Number h) res)"
    show ?thesis
    proof (cases "num_lt p 0.05")
      case sig: True
      with True kw Cons.prems(1) obtain d where
        run: "cluster_outcome_loop lib df n ts (AList.update (t @ ''_dunn_pvalues'') (Matrix d) ?r1) = Inr out"
        by (auto simp: Let_def split: if_splits sum.splits)
      from Cons.IH [OF run rest] key show ?thesis by (simp add: update_conv')
    next
      case nsig: False
      with True kw Cons.prems(1) have
        run: "cluster_outcome_loop lib df n ts (AList.update (t @ ''_dunn_pvalues'') PyNone ?r1) = Inr out"
        by (auto simp: Let_def split: if_splits sum.splits)
      from Cons.IH [OF run rest] key show ?thesis by (simp add: update_conv')
    qed
  qed
qed

lemma target_keys_disjoint:
  assumes "length t = length target" "t \<noteq> target" "key \<in> target_keys target"
  shows "key \<notin> target_keys t"
  using assms by (auto simp: target_keys_def)

lemma cluster_outcome_loop_lookup:
  assumes "cluster_outcome_loop lib df n ts res = Inr out"
    and "target \<in> set ts" "target \<in> set (columns df)"
    and "\<forall>t \<in> set ts. length t = length target"
  shows "\<exists>h p. kruskal lib (cluster_groups df n target) = Inr (h, p)
           \<and> map_of out (target @ ''_kruskal_h'') = Some (Number h)
           \<and> map_of out (target @ ''_kruskal_p'') = Some (Number p)
           \<and> (if num_lt p 0.05
               then \<exists>d. posthoc_dunn lib (dunn_input df target) = Inr d
                      \<and> map_of out (target @ ''_dunn_pvalues'') = Some (Matrix d)
               else map_of out (target @ ''_dunn_pvalues'') = Some PyNone)"
  using assms
proof (induction ts arbitrary: res)
  case Nil
  then show ?case by simp
next
  case (Cons t ts)
  from Cons.prems(4) have lens: "\<forall>t \<in> set ts. length t = length target" by simp
  have later: ?case if run: "cluster_outcome_loop lib df n ts res' = Inr out" and "target \<in> set ts" for res'
    using Cons.IH [OF run that(2) Cons.prems(3) lens] .
  show ?case
  proof (cases "t \<in> set (columns df)")
    case False
    with Cons.prems(1) have run: "cluster_outcome_loop lib df n ts res = Inr out" by simp
    from False Cons.prems(2,3) have "target \<in> set ts" by auto
    from later [OF run this] show ?thesis .
  next
    case True
    with Cons.prems(1) obtain h p where kw: "kruskal lib (cluster_groups df n t) = Inr (h, p)"
      by (auto split: if_splits sum.splits)
    let ?r1 = "AList.update (t @ ''_kruskal_p'') (Number p)
                 (AList.update (t @ ''_kruskal_h'') (Number h) res)"
    show ?thesis
    proof (cases "num_lt p 0.05")
      case sig: True
      with True kw Cons.prems(1) obtain d where d: "posthoc_dunn lib (dunn_input df t) = Inr d" and
        run: "cluster_outcome_loop lib df n ts (AList.update (t @ ''_dunn_pvalues'') (Matrix d) ?r1) = Inr out"
        by (auto simp: Let_def split: if_splits sum.splits)
      show ?thesis
      proof (cases "target \<in> set ts")
        case True
        from later [OF run this] show ?thesis .
      next
        case False
        with Cons.prems(2) have tt: "t = target" by simp
        have "\<forall>t' \<in> set ts. key \<notin> target_keys t'" if "key \<in> target_keys target" for key
          using that lens False target_keys_disjoint by blast
        then have keep: "map_of out key =
            map_of (AList.update (t @ ''_dunn_pvalues'') (Matrix d) ?r1) key"
          if "key \<in> target_keys target" for key
          using cluster_outcome_loop_keeps [OF run] that by blast
        have "map_of out (target @ ''_kruskal_h'') = Some (Number h)"
          "map_of out (target @ ''_kruskal_p'') = Some (Number p)"
          "map_of out (target @ ''_dunn_pvalues'') = Some (Matrix d)"
          using keep tt by (simp_all add: target_keys_def update_conv')
        with kw d sig tt show ?thesis by auto
      qed
    next
      case nsig: False
      with True kw Cons.prems(1) have
        run: "cluster_outcome_loop lib df n ts (AList.update (t @ ''_dunn_pvalues'') PyNone ?r1) = Inr out"
        by (auto simp: Let_def split: if_splits sum.splits)
      show ?thesis
      proof (cases "target \<in> set ts")
        case True
        from later [OF run this] show ?thesis .
      next
        case False
        with Cons.prems(2) have tt: "t = target" by simp
        have "\<forall>t' \<in> set ts. key \<notin> target_keys t'" if "key \<in> target_keys target" for key
          using that lens False target_keys_disjoint by blast
        then have keep: "map_of out key =
            map_of (AList.update (t @ ''_dunn_pvalues'') PyNone ?r1) key"
          if "key \<in> target_keys target" for key
          using cluster_outcome_loop_keeps [OF run] that by blast
        have "map_of out (target @ ''_kruskal_h'') = Some (Number h)"
          "map_of out (target @ ''_kruskal_p'') = Some (Number p)"
          "map_of out (target @ ''_dunn_pvalues'') = Some PyNone"
          using keep tt by (simp_all add: target_keys_def update_conv')
        with kw nsig tt show ?thesis by auto
      qed
    qed
  qed
qed

lemma cluster_outcome_loop_without_dunn:
  assumes "\<forall>t \<in> set ts. t \<in> set (columns df) \<longrightarrow>
             (\<forall>h p. kruskal lib (cluster_groups df n t) = Inr (h, p) \<longrightarrow> \<not> num_lt p 0.05)"
  shows "cluster_outcome_loop (lib\<lparr>posthoc_dunn := dunn'\<rparr>) df n ts res =
         cluster_outcome_loop lib df n ts res"
  using assms
proof (induction ts arbitrary: res)
  case Nil
  then show ?case by simp
next
  case (Cons t ts)
  then show ?case by (auto simp: Let_def split: sum.splits)
qed

text \<open>
  Claim C5.  Whenever the test of the cluster-outcome relationships returns, for each
  outcome column of the table: when the Kruskal-Wallis p-value is strictly below 0.05 the
  stored pairwise result is the matrix Dunn's test returns, and otherwise (the p-value is
  0.05 or more, or NaN) it is None.
\<close>

theorem dunn_matrix_iff_kruskal_significant:
  assumes run: "test_cluster_outcome_relationships lib df n = Inr results"
    and target: "target \<in> set TARGETS" "target \<in> set (columns df)"
  shows "\<exists>h p. kruskal lib (cluster_groups df n target) = Inr (h, p)
           \<and> map_of results (target @ ''_kruskal_p'') = Some (Number p)
           \<and> (if num_lt p 0.05
               then \<exists>d. posthoc_dunn lib (dunn_input df target) = Inr d
                      \<and> map_of results (target @ ''_dunn_pvalues'') = Some (Matrix d)
               else map_of results (target @ ''_dunn_pvalues'') = Some PyNone)"
proof -
  from target(1) have "\<forall>t \<in> set TARGETS. length t = length target"
    by (auto simp: TARGETS_def)
  from cluster_outcome_loop_lookup
    [OF run [unfolded test_cluster_outcome_relationships_def] target this]
  show ?thesis by blast
qed

theorem dunn_matrix_iff_kruskal_significant_witness:
  "\<exists>results. test_cluster_outcome_relationships demo_rank_lib demo_clustered 2 = Inr results
      \<and> map_of results ''pos_dunn_pvalues'' = Some (Matrix 2)
      \<and> map_of results ''egg_dunn_pvalues'' = Some PyNone"
proof -
  have groups: "cluster_groups demo_clustered 2 ''pos'' = [[Val 1], [Val 2]]"
    "cluster_groups demo_clustered 2 ''egg'' = [[Val 5], [Val 6]]"
    by (simp_all add: cluster_groups_def demo_clustered_def row_of_def notna_def upt_rec)
  have input: "length (dunn_input demo_clustered ''pos'') = 2"
    by (simp add: dunn_input_def demo_clustered_def row_of_def notna_def)
  have "\<exists>results. test_cluster_outcome_relationships demo_rank_lib demo_clustered 2 = Inr results"
    by (simp add: test_cluster_outcome_relationships_def TARGETS_def groups demo_rank_lib_def)
       (simp add: demo_clustered_def)
  then obtain results where
    run: "test_cluster_outcome_relationships demo_rank_lib demo_clustered 2 = Inr results" by blast
  have pos: "''pos'' \<in> set TARGETS" "''pos'' \<in> set (columns demo_clustered)"
    and egg: "''egg'' \<in> set TARGETS" "''egg'' \<in> set (columns demo_clustered)"
    by (simp_all add: TARGETS_def demo_clustered_def)
  from dunn_matrix_iff_kruskal_significant [OF run pos]
  have "map_of results ''pos_dunn_pvalues'' = Some (Matrix 2)"
    by (auto simp: groups input demo_rank_lib_def)
  moreover from dunn_matrix_iff_kruskal_significant [OF run egg]
  have "map_of results ''egg_dunn_pvalues'' = Some PyNone"
    by (auto simp: groups demo_rank_lib_def)
  ultimately show ?thesis using run by blast
qed

section \<open>Universal and city-specific predictors\<close>

lemma num_gt_abs_iff: "num_gt (num_abs c) t \<longleftrightarrow> (\<exists>v. c = Val v \<and> \<bar>v\<bar> > t)"
  by (cases c) simp_all

lemma num_lt_iff: "num_lt p t \<longleftrightarrow> (\<exists>v. p = Val v \<and> v < t)"
  by (cases p) simp_all

lemma significant_features_iff:
  assumes "distinct (map fst corr)"
  shows "f \<in> significant_features corr pval \<longleftrightarrow>
     (\<exists>c p. map_of corr f = Some (Val c) \<and> map_of pval f = Some (Val p) \<and> \<bar>c\<bar> > 0.3 \<and> p < 0.001)"
proof -
  have "f \<in> significant_features corr pval \<longleftrightarrow>
     (\<exists>c. (f, c) \<in> set corr \<and> num_gt (num_abs c) 0.3 \<and>
          (\<exists>p. map_of pval f = Some p \<and> num_lt p 0.001))"
    by (force simp: significant_features_def UNIVERSAL_PREDICTOR_RHO_THRESHOLD_def
        UNIVERSAL_PREDICTOR_P_THRESHOLD_def split: option.splits)
  also have "\<dots> \<longleftrightarrow> (\<exists>c. map_of corr f = Some c \<and> num_gt (num_abs c) 0.3 \<and>
          (\<exists>p. map_of pval f = Some p \<and> num_lt p 0.001))"
    using assms by simp
  also have "\<dots> \<longleftrightarrow> (\<exists>c p. map_of corr f = Some (Val c) \<and> map_of pval f = Some (Val p)
          \<and> \<bar>c\<bar> > 0.3 \<and> p < 0.001)"
    unfolding num_gt_abs_iff num_lt_iff by blast
  finally show ?thesis .
qed

lemma city_entry_name:
  "city_entry city_results target city_key = Inr (Some (name, S)) \<Longrightarrow> name = CITIES_name_en city_key"
  by (auto simp: city_entry_def split: option.splits)

lemma collect_significant_entries:
  assumes "collect_significant city_results target keys acc = Inr cs"
    and "distinct (map CITIES_name_en keys)"
    and "\<forall>key \<in> set keys. CITIES_name_en key \<notin> fst ` set acc"
  shows "cs = acc @ List.map_filter (entry_of city_results target) keys"
  using assms
proof (induction keys arbitrary: acc)
  case Nil
  then show ?case by (simp add: map_filter_simps)
next
  case (Cons key keys)
  from Cons.prems(2) have d: "distinct (map CITIES_name_en keys)" by simp
  from Cons.prems(2) have "CITIES_name_en key \<notin> CITIES_name_en ` set keys" by simp
  then have fresh: "\<forall>key' \<in> set keys. CITIES_name_en key' \<noteq> CITIES_name_en key"
    by (metis imageI)
  from Cons.prems(1) obtain e where e: "city_entry city_results target key = Inr e"
    by (cases "city_entry city_results target key") auto
  show ?case
  proof (cases e)
    case None
    with e Cons.prems(1) have run: "collect_significant city_results target keys acc = Inr cs"
      by simp
    from Cons.prems(3) have "\<forall>key \<in> set keys. CITIES_name_en key \<notin> fst ` set acc" by simp
    from Cons.IH [OF run d this] e None show ?thesis
      by (simp add: map_filter_simps entry_of_def)
  next
    case (Some nS)
    obtain name S where nS: "nS = (name, S)" by (cases nS)
    from e Some nS have name: "name = CITIES_name_en key" by (simp add: city_entry_name)
    from e Some nS Cons.prems(1)
    have run: "collect_significant city_results target keys (AList.update name S acc) = Inr cs"
      by simp
    from Cons.prems(3) name have "name \<notin> fst ` set acc" by simp
    then have upd: "AList.update name S acc = acc @ [(name, S)]" by (rule update_absent)
    have "\<forall>key' \<in> set keys. CITIES_name_en key' \<notin> fst ` set (acc @ [(name, S)])"
      using Cons.prems(3) fresh name by auto
    from Cons.IH [OF run [unfolded upd] d this] e Some nS show ?thesis
      by (simp add: map_filter_simps entry_of_def)
  qed
qed

lemma CITY_ORDER_names_distinct: "distinct (map CITIES_name_en CITY_ORDER)"
  by (simp add: CITY_ORDER_def CITIES_name_en_def)

lemma collect_significant_city_sets:
  assumes "collect_significant city_results target CITY_ORDER [] = Inr cs"
  shows "map snd cs = city_sets city_results target"
  using collect_significant_entries [OF assms CITY_ORDER_names_distinct]
  by (simp add: city_sets_def)

lemma identify_predictors_loop_keeps:
  assumes "identify_predictors_loop city_results ts acc = Inr preds" "target \<notin> set ts"
  shows "universal_predictors preds target = universal_predictors acc target
       \<and> city_specific_predictors preds target = city_specific_predictors acc target"
  using assms
proof (induction ts arbitrary: acc)
  case Nil
  then show ?case by simp
next
  case (Cons t ts)
  from Cons.prems(2) have ne: "t \<noteq> target" "target \<notin> set ts" by auto
  from Cons.prems(1) obtain cs where cs: "collect_significant city_results t CITY_ORDER [] = Inr cs"
    by (auto split: sum.splits)
  show ?case
  proof (cases "cs = []")
    case True
    with cs Cons.prems(1) have "identify_predictors_loop city_results ts acc = Inr preds" by simp
    from Cons.IH [OF this ne(2)] show ?thesis .
  next
    case False
    let ?acc = "\<lparr>universal_predictors = (universal_predictors acc)(t \<mapsto> universal_of cs),
                 city_specific_predictors = (city_specific_predictors acc)(t \<mapsto> city_specific_of cs)\<rparr>"
    from False cs Cons.prems(1) have "identify_predictors_loop city_results ts ?acc = Inr preds"
      by simp
    from Cons.IH [OF this ne(2)] ne(1) show ?thesis by simp
  qed
qed

lemma identify_predictors_loop_target:
  assumes "identify_predictors_loop city_results ts acc = Inr preds" "target \<in> set ts"
    and "collect_significant city_results target CITY_ORDER [] = Inr cs" "cs \<noteq> []"
  shows "universal_predictors preds target = Some (universal_of cs)
       \<and> city_specific_predictors preds target = Some (city_specific_of cs)"
  using assms(1,2)
proof (induction ts arbitrary: acc)
  case Nil
  then show ?case by simp
next
  case (Cons t ts)
  from Cons.prems(1) obtain cs' where cs': "collect_significant city_results t CITY_ORDER [] = Inr cs'"
    by (auto split: sum.splits)
  let ?acc = "if cs' \<noteq> [] then
                \<lparr>universal_predictors = (universal_predictors acc)(t \<mapsto> universal_of cs'),
                 city_specific_predictors = (city_specific_predictors acc)(t \<mapsto> city_specific_of cs')\<rparr>
              else acc"
  from cs' Cons.prems(1) have run: "identify_predictors_loop city_results ts ?acc = Inr preds"
    by (simp split: if_splits)
  show ?case
  proof (cases "target \<in> set ts")
    case True
    from Cons.IH [OF run True] show ?thesis .
  next
    case False
    with Cons.prems(2) have tt: "t = target" by simp
    with cs' assms(3) have "cs' = cs" by simp
    with identify_predictors_loop_keeps [OF run False] tt assms(4) show ?thesis by simp
  qed
qed

lemma collect_significant_defined:
  assumes "identify_predictors_loop city_results ts acc = Inr preds" "target \<in> set ts"
  shows "\<exists>cs. collect_significant city_results target CITY_ORDER [] = Inr cs"
  using assms
proof (induction ts arbitrary: acc)
  case Nil
  then show ?case by simp
next
  case (Cons t ts)
  from Cons.prems(1) obtain cs' where cs': "collect_significant city_results t CITY_ORDER [] = Inr cs'"
    by (auto split: sum.splits)
  show ?case
  proof (cases "t = target")
    case True
    with cs' show ?thesis by blast
  next
    case False
    with Cons.prems(2) have mem: "target \<in> set ts" by simp
    let ?acc = "if cs' \<noteq> [] then
                \<lparr>universal_predictors = (universal_predictors acc)(t \<mapsto> universal_of cs'),
                 city_specific_predictors = (city_specific_predictors acc)(t \<mapsto> city_specific_of cs')\<rparr>
              else acc"
    from cs' Cons.prems(1) have run: "identify_predictors_loop city_results ts ?acc = Inr preds"
      by (simp split: if_splits)
    from Cons.IH [OF run mem] show ?thesis .
  qed
qed

lemma cities_with_feature_length:
  "length (cities_with_feature cs f) = length (filter (\<lambda>S. f \<in> S) (map snd cs))"
  by (induction cs) (auto simp: cities_with_feature_def)

lemma in_some_set:
  "1 \<le> length (filter (\<lambda>S. f \<in> S) sets) \<Longrightarrow> f \<in> \<Union> (set sets)"
  by (induction sets) (auto split: if_splits)

lemma city_specific_of_dom:
  "f \<in> dom (city_specific_of cs) \<longleftrightarrow>
     1 \<le> length (filter (\<lambda>S. f \<in> S) (map snd cs)) \<and> length (filter (\<lambda>S. f \<in> S) (map snd cs)) \<le> 2"
  using in_some_set [of f "map snd cs"]
  by (simp add: city_specific_of_def Let_def dom_def cities_with_feature_length del: filter_map) blast

lemma not_in_all:
  assumes "length (filter (\<lambda>S. f \<in> S) sets) < length sets"
  shows "f \<notin> \<Inter> (set sets)"
proof
  assume "f \<in> \<Inter> (set sets)"
  then have "filter (\<lambda>S. f \<in> S) sets = sets" by (auto intro: filter_True)
  with assms show False by simp
qed

text \<open>
  Claim C6.  A feature is significant-and-strong for a city exactly when its correlation
  and its p-value are numbers with absolute correlation above 0.3 and p-value below 0.001.
  Whenever the comparison returns and at least one city supplied correlations for the
  target, the universal predictors are the intersection of the per-city sets of the
  cities that supplied them; the city-specific predictors are exactly the features that
  lie in one or in two of these sets; and with three or more such cities a feature that
  lies in exactly two of the sets is city-specific and not universal.
\<close>

theorem identify_predictors_universal_and_city_specific:
  assumes run: "identify_predictors city_results = Inr preds"
    and target: "target \<in> set TARGETS"
    and supplied: "city_sets city_results target \<noteq> []"
  shows "(\<forall>corr pval f. distinct (map fst corr) \<longrightarrow>
            (f \<in> significant_features corr pval \<longleftrightarrow>
               (\<exists>c p. map_of corr f = Some (Val c) \<and> map_of pval f = Some (Val p)
                  \<and> \<bar>c\<bar> > 0.3 \<and> p < 0.001)))
       \<and> universal_predictors preds target = Some (\<Inter> (set (city_sets city_results target)))
       \<and> (\<exists>spec. city_specific_predictors preds target = Some spec
            \<and> (\<forall>f. (f \<in> dom spec \<longleftrightarrow>
                       length (filter (\<lambda>S. f \<in> S) (city_sets city_results target)) \<in> {1, 2})
                  \<and> (3 \<le> length (city_sets city_results target)
                       \<and> length (filter (\<lambda>S. f \<in> S) (city_sets city_results target)) = 2
                     \<longrightarrow> f \<in> dom spec \<and> f \<notin> \<Inter> (set (city_sets city_results target)))))"
proof -
  let ?sets = "city_sets city_results target"
  note loop = run [unfolded identify_predictors_def]
  from collect_significant_defined [OF loop target]
  obtain cs where cs: "collect_significant city_results target CITY_ORDER [] = Inr cs" by blast
  from collect_significant_city_sets [OF cs] have sets: "map snd cs = ?sets" .
  with supplied have ne: "cs \<noteq> []" by auto
  from identify_predictors_loop_target [OF loop target cs ne]
  have u: "universal_predictors preds target = Some (universal_of cs)"
    and s: "city_specific_predictors preds target = Some (city_specific_of cs)" by simp_all
  have u': "universal_of cs = \<Inter> (set ?sets)" by (simp add: universal_of_def sets)
  have dom: "f \<in> dom (city_specific_of cs) \<longleftrightarrow> length (filter (\<lambda>S. f \<in> S) ?sets) \<in> {1, 2}" for f
    unfolding city_specific_of_dom sets by auto
  have excl: "f \<in> dom (city_specific_of cs) \<and> f \<notin> \<Inter> (set ?sets)"
    if "3 \<le> length ?sets" "length (filter (\<lambda>S. f \<in> S) ?sets) = 2" for f
  proof -
    from that have "length (filter (\<lambda>S. f \<in> S) ?sets) < length ?sets" by simp
    then have "f \<notin> \<Inter> (set ?sets)" by (rule not_in_all)
    with dom [of f] that(2) show ?thesis by simp
  qed
  have strong: "\<forall>corr pval f. distinct (map fst corr) \<longrightarrow>
            (f \<in> significant_features corr pval \<longleftrightarrow>
               (\<exists>c p. map_of corr f = Some (Val c) \<and> map_of pval f = Some (Val p)
                  \<and> \<bar>c\<bar> > 0.3 \<and> p < 0.001))"
    using significant_features_iff by blast
  have rest: "universal_predictors preds target = Some (\<Inter> (set ?sets))
       \<and> (\<exists>spec. city_specific_predictors preds target = Some spec
            \<and> (\<forall>f. (f \<in> dom spec \<longleftrightarrow> length (filter (\<lambda>S. f \<in> S) ?sets) \<in> {1, 2})
                  \<and> (3 \<le> length ?sets \<and> length (filter (\<lambda>S. f \<in> S) ?sets) = 2
                     \<longrightarrow> f \<in> dom spec \<and> f \<notin> \<Inter> (set ?sets))))"
    using u u' s dom excl by auto
  from strong rest show ?thesis by (rule conjI)
qed

lemma demo_city_sets:
  "city_sets demo_city_results ''pos'' = [{''f'', ''g''}, {''f'', ''g''}, {''g''}]"
  by (simp add: city_sets_def entry_of_def city_entry_def CITY_ORDER_def map_filter_simps
      demo_city_results_def demo_stat_def significant_features_def
      UNIVERSAL_PREDICTOR_RHO_THRESHOLD_def UNIVERSAL_PREDICTOR_P_THRESHOLD_def)

theorem identify_predictors_universal_and_city_specific_witness:
  "\<exists>preds spec. identify_predictors demo_city_results = Inr preds
      \<and> universal_predictors preds ''pos'' = Some {''g''}
      \<and> city_specific_predictors preds ''pos'' = Some spec
      \<and> ''f'' \<in> dom spec \<and> ''g'' \<notin> dom spec"
proof -
  have "\<exists>preds. identify_predictors demo_city_results = Inr preds"
    by (simp add: identify_predictors_def TARGETS_def CITY_ORDER_def city_entry_def
        demo_city_results_def demo_stat_def)
  then obtain preds where run: "identify_predictors demo_city_results = Inr preds" by blast
  have target: "''pos'' \<in> set TARGETS" by (simp add: TARGETS_def)
  have supplied: "city_sets demo_city_results ''pos'' \<noteq> []" by (simp add: demo_city_sets)
  from identify_predictors_universal_and_city_specific [OF run target supplied]
  obtain spec where u: "universal_predictors preds ''pos'' = Some (\<Inter> (set (city_sets demo_city_results ''pos'')))"
    and s: "city_specific_predictors preds ''pos'' = Some spec"
    and d: "\<And>f. f \<in> dom spec \<longleftrightarrow>
               length (filter (\<lambda>S. f \<in> S) (city_sets demo_city_results ''pos'')) \<in> {1, 2}"
    by blast
  have "\<Inter> (set (city_sets demo_city_results ''pos'')) = {''g''}"
    by (auto simp: demo_city_sets)
  moreover have "''f'' \<in> dom spec" unfolding d by (simp add: demo_city_sets)
  moreover have "''g'' \<notin> dom spec" unfolding d by (simp add: demo_city_sets)
  ultimately show ?thesis using run u s by auto
qed

end
